theory Spec2Isabelle
  imports Main "HOL-Library.Multiset"
begin

section \<open>JavaScript string primitives used by the converter\<close>

text \<open>
  A JavaScript string is a sequence of UTF-16 code units. The model uses HOL's
  \<^typ>\<open>string\<close>, whose characters have eight bits, and reads a character as the code unit
  of the same number: the development covers texts over U+0000 .. U+00FF. All delimiters
  the converter looks for are ASCII.
\<close>

definition isWhiteSpace :: "char \<Rightarrow> bool" where
  \<comment> \<open>what \<open>String.prototype.trim\<close> strips and what \<open>\s\<close> matches, below U+0100:
      TAB, LF, VT, FF, CR, SPACE, NBSP\<close>
  "isWhiteSpace c = ((of_char c :: nat) \<in> {9, 10, 11, 12, 13, 32, 160})"

definition isLineTerminator :: "char \<Rightarrow> bool" where
  \<comment> \<open>what \<open>.\<close> refuses in a regular expression without the \<open>s\<close> flag, below U+0100\<close>
  "isLineTerminator c = ((of_char c :: nat) \<in> {10, 13})"

definition trim :: "string \<Rightarrow> string" where
  "trim s = rev (dropWhile isWhiteSpace (rev (dropWhile isWhiteSpace s)))"

definition startsWith :: "string \<Rightarrow> string \<Rightarrow> bool" where
  "startsWith s p = (take (length p) s = p)"

fun split :: "char \<Rightarrow> string \<Rightarrow> string list" where
  \<comment> \<open>\<open>s.split(c)\<close> for a one-character separator; the result is never empty\<close>
  "split c [] = [[]]"
| "split c (x # xs) =
     (if x = c then [] # split c xs
      else (case split c xs of [] \<Rightarrow> [[x]] | y # ys \<Rightarrow> (x # y) # ys))"

definition indexOf :: "string \<Rightarrow> char \<Rightarrow> nat option" where
  \<comment> \<open>\<open>s.indexOf(c)\<close>, with \<open>None\<close> for \<open>-1\<close>\<close>
  "indexOf s c = (if c \<in> set s then Some (length (takeWhile (\<lambda>x. x \<noteq> c) s)) else None)"

definition lastIndexOf :: "string \<Rightarrow> char \<Rightarrow> nat option" where
  \<comment> \<open>\<open>s.lastIndexOf(c)\<close>, with \<open>None\<close> for \<open>-1\<close>\<close>
  "lastIndexOf s c =
     (if c \<in> set s then Some (length s - 1 - length (takeWhile (\<lambda>x. x \<noteq> c) (rev s))) else None)"

definition slice :: "string \<Rightarrow> nat \<Rightarrow> nat \<Rightarrow> string" where
  \<comment> \<open>\<open>s.slice(a, b)\<close> for non-negative indices; both are clamped to the length\<close>
  "slice s a b = take (b - a) (drop a s)"

definition sliceFrom :: "string \<Rightarrow> nat \<Rightarrow> string" where
  \<comment> \<open>\<open>s.slice(a)\<close> for a non-negative index\<close>
  "sliceFrom s a = drop a s"

definition toLowerCaseChar :: "char \<Rightarrow> char" where
  \<comment> \<open>A-Z and the upper-case letters of Latin-1 (U+00C0 .. U+00DE without U+00D7)\<close>
  "toLowerCaseChar c =
     (let n = (of_char c :: nat)
      in if (65 \<le> n \<and> n \<le> 90) \<or> (192 \<le> n \<and> n \<le> 222 \<and> n \<noteq> 215)
         then char_of (n + 32) else c)"

definition toLowerCase :: "string \<Rightarrow> string" where
  "toLowerCase s = map toLowerCaseChar s"

section \<open>Target classifier\<close>

definition isProbablyRemoteLink :: "string \<Rightarrow> bool" where
  "isProbablyRemoteLink target =
     (let t = trim target
      in startsWith t ''http://'' \<or> startsWith t ''https://'' \<or> startsWith t ''data:''
         \<or> startsWith t ''mailto:'' \<or> startsWith t ''file:'')"

definition extractExtFromTarget :: "string \<Rightarrow> string option" where
  "extractExtFromTarget target =
     (let t = trim (hd (split (CHR ''?'') (hd (split (CHR ''#'') target))))
      in if t = [] then None
         else let last_seg = last (split (CHR ''/'') t)
              in case lastIndexOf last_seg (CHR ''.'') of
                   None \<Rightarrow> None
                 | Some dot \<Rightarrow>
                     let ext = toLowerCase (sliceFrom last_seg (dot + 1))
                     in if ext = [] then None else Some ext)"

text \<open>
  The \<open>mimeType\<close> object of the settings module, which is not part of the converter: which
  extensions are supported, the MIME type of an extension, and the rendering method of a
  MIME type. The converter takes it as a parameter.
\<close>

record MimeType =
  includeEXT :: "string \<Rightarrow> bool"
  getMIME :: "string \<Rightarrow> string"
  getMethod :: "string \<Rightarrow> string"

definition isAttachmentCandidate :: "MimeType \<Rightarrow> string \<Rightarrow> bool" where
  "isAttachmentCandidate mimeType target =
     (case extractExtFromTarget target of
        None \<Rightarrow> False
      | Some ext \<Rightarrow> if ext = ''md'' then False else includeEXT mimeType ext)"

text \<open>
  The extension as the specification words it: drop the fragment or query, trim, keep the
  last path segment, and take what follows its last dot, in lower case.
\<close>

definition extensionOf :: "string \<Rightarrow> string option" where
  "extensionOf target =
     (let t = trim (takeWhile (\<lambda>c. c \<noteq> CHR ''#'' \<and> c \<noteq> CHR ''?'') target);
          seg = rev (takeWhile (\<lambda>c. c \<noteq> CHR ''/'') (rev t));
          e = rev (takeWhile (\<lambda>c. c \<noteq> CHR ''.'') (rev seg))
      in if CHR ''.'' \<in> set seg \<and> e \<noteq> [] then Some (toLowerCase e) else None)"

section \<open>Remote object names\<close>

fun showNat :: "nat \<Rightarrow> string" where
  \<comment> \<open>a number as a template literal prints it: decimal digits\<close>
  "showNat n =
     (if n < 10 then [char_of (48 + n)]
      else showNat (n div 10) @ [char_of (48 + n mod 10)])"

definition isTruthy :: "string option \<Rightarrow> bool" where
  \<comment> \<open>an optional string in a condition: \<open>undefined\<close> and the empty string are falsy\<close>
  "isTruthy v = (case v of None \<Rightarrow> False | Some s \<Rightarrow> s \<noteq> [])"

definition interpolate :: "string option \<Rightarrow> string" where
  \<comment> \<open>an optional string inside a template literal\<close>
  "interpolate v = (case v of None \<Rightarrow> ''undefined'' | Some s \<Rightarrow> s)"

definition nthOpt :: "'a list \<Rightarrow> nat \<Rightarrow> 'a option" where
  \<comment> \<open>array indexing and destructuring: \<open>undefined\<close> past the end\<close>
  "nthOpt xs i = (if i < length xs then Some (xs ! i) else None)"

text \<open>\<open>Date.now()\<close> is the parameter \<open>now\<close>.\<close>

definition generateResourceName :: "nat \<Rightarrow> string \<Rightarrow> string option \<Rightarrow> string option \<Rightarrow> string" where
  "generateResourceName now fileName parent hash =
     (let parts = split (CHR ''.'') fileName;
          name = nthOpt parts 0;
          type = nthOpt parts 1
      in if isTruthy hash
         then interpolate name @ ''-'' @ interpolate hash @ ''.'' @ interpolate type
         else (if isTruthy parent then interpolate parent @ ''-'' else [])
              @ interpolate name @ ''-'' @ showNat now @ ''.'' @ interpolate type)"

section \<open>References, replacements and files\<close>

datatype RefKind = ObsidianEmbed | ObsidianLink | MdEmbed | MdLink

record Span =
  start :: nat
  end' :: nat

record AttachmentRef = Span +
  kind :: RefKind
  raw :: string
  target :: string
  label :: "string option"
  suffix :: "string option"

record Replacement = Span +
  newText :: string

record TFile =
  path :: string
  name :: string
  basename :: string
  extension :: string
  parent :: "string option"  \<comment> \<open>the path of the folder that holds the file, when there is one\<close>

section \<open>Reference scanner\<close>

definition parseObsidianLinkTarget :: "string \<Rightarrow> string \<times> string option" where
  "parseObsidianLinkTarget inner =
     (let linkpath0 = trim inner;
          (linkpath1, lbl) =
            (case indexOf linkpath0 (CHR ''|'') of
               None \<Rightarrow> (linkpath0, None)
             | Some pipeIdx \<Rightarrow>
                 (trim (slice linkpath0 0 pipeIdx),
                  (let l = trim (sliceFrom linkpath0 (pipeIdx + 1))
                   in if l \<noteq> [] then Some l else None)))
      in (trim (hd (split (CHR ''^'') (hd (split (CHR ''#'') linkpath1)))), lbl))"

definition titleTail :: "string \<Rightarrow> bool" where
  \<comment> \<open>\<open>(?:\s+(".*"|'.*'))\s*$\<close> matches the whole of \<open>s\<close>: white space, an opening
      quote, a body without line terminators up to the same quote, white space to the end\<close>
  "titleTail s =
     (let ws = takeWhile isWhiteSpace s; r = dropWhile isWhiteSpace s
      in ws \<noteq> [] \<and>
         (case r of
            [] \<Rightarrow> False
          | q # body \<Rightarrow>
              (q = CHR 0x22 \<or> q = CHR 0x27) \<and>
              list_ex (\<lambda>k. body ! k = q
                         \<and> list_all (\<lambda>c. \<not> isLineTerminator c) (take k body)
                         \<and> list_all isWhiteSpace (drop (k + 1) body))
                [0..<length body]))"

definition matchTitle :: "string \<Rightarrow> string option" where
  \<comment> \<open>group 1 of \<open>/^(.*?)(?:\s+(".*"|'.*'))\s*$/\<close>: the lazy group takes the shortest
      prefix without a line terminator after which the rest matches\<close>
  "matchTitle d =
     map_option (\<lambda>k. take k d)
       (find (\<lambda>k. list_all (\<lambda>c. \<not> isLineTerminator c) (take k d) \<and> titleTail (drop k d))
          [0..<Suc (length d)])"

definition matchDest :: "string \<Rightarrow> (string \<times> string option) option" where
  \<comment> \<open>groups 1 and 2 of \<open>/^([^#?]+)([?#].+)?$/\<close>\<close>
  "matchDest d =
     (let p = takeWhile (\<lambda>c. c \<noteq> CHR ''#'' \<and> c \<noteq> CHR ''?'') d;
          r = dropWhile (\<lambda>c. c \<noteq> CHR ''#'' \<and> c \<noteq> CHR ''?'') d
      in if p = [] then None
         else if r = [] then Some (p, None)
         else if tl r \<noteq> [] \<and> list_all (\<lambda>c. \<not> isLineTerminator c) (tl r) then Some (p, Some r)
         else None)"

definition parseMarkdownDest :: "string \<Rightarrow> string \<times> string option" where
  "parseMarkdownDest destRaw =
     (let d0 = trim destRaw;
          d = (if startsWith d0 ''<''
               then (case indexOf d0 (CHR ''>'') of
                       Some close \<Rightarrow> slice d0 1 close
                     | None \<Rightarrow> d0)
               else (case matchTitle d0 of
                       Some g \<Rightarrow> if g \<noteq> [] then g else d0
                     | None \<Rightarrow> d0))
      in case matchDest d of
           None \<Rightarrow> (d, None)
         | Some (dest, sfx) \<Rightarrow> (dest, sfx))"

text \<open>
  The four patterns, each tried at one position \<open>i\<close> of the text. A matcher returns the
  captured groups and the length of the match. The character classes \<open>[^\]]\<close> and
  \<open>[^)]\<close> exclude the very character that must follow them, so each group is the longest
  run of its class and no backtracking can produce another match at the same position.
\<close>

definition notAfterBang :: "string \<Rightarrow> nat \<Rightarrow> bool" where
  \<comment> \<open>the lookbehind \<open>(?<!!)\<close>\<close>
  "notAfterBang content i = (i = 0 \<or> content ! (i - 1) \<noteq> CHR ''!'')"

definition wikiBody :: "string \<Rightarrow> (string \<times> nat) option" where
  \<comment> \<open>\<open>\[\[([^\]]+?)\]\]\<close> at the head of \<open>s\<close>\<close>
  "wikiBody s =
     (if startsWith s ''[[''
      then let inner = takeWhile (\<lambda>c. c \<noteq> CHR '']'') (drop 2 s)
           in if inner \<noteq> [] \<and> startsWith (drop (2 + length inner) s) '']]''
              then Some (inner, 2 + length inner + 2) else None
      else None)"

definition mdBody :: "string \<Rightarrow> ((string \<times> string) \<times> nat) option" where
  \<comment> \<open>\<open>\[([^\]]*)\]\(([^)]+)\)\<close> at the head of \<open>s\<close>\<close>
  "mdBody s =
     (if startsWith s ''[''
      then let alt = takeWhile (\<lambda>c. c \<noteq> CHR '']'') (drop 1 s);
               r = drop (1 + length alt) s
           in if startsWith r ''](''
              then let dest = takeWhile (\<lambda>c. c \<noteq> CHR '')'') (drop 2 r)
                   in if dest \<noteq> [] \<and> startsWith (drop (2 + length dest) r) '')''
                      then Some ((alt, dest), 1 + length alt + 2 + length dest + 1) else None
              else None
      else None)"

definition matchObsidianEmbed :: "string \<Rightarrow> nat \<Rightarrow> (string \<times> nat) option" where
  \<comment> \<open>\<open>/!\[\[([^\]]+?)\]\]/\<close>\<close>
  "matchObsidianEmbed content i =
     (if startsWith (drop i content) ''!''
      then map_option (\<lambda>(g, n). (g, 1 + n)) (wikiBody (drop (i + 1) content))
      else None)"

definition matchObsidianLink :: "string \<Rightarrow> nat \<Rightarrow> (string \<times> nat) option" where
  \<comment> \<open>\<open>/(?<!!)\[\[([^\]]+?)\]\]/\<close>\<close>
  "matchObsidianLink content i =
     (if notAfterBang content i then wikiBody (drop i content) else None)"

definition matchMdEmbed :: "string \<Rightarrow> nat \<Rightarrow> ((string \<times> string) \<times> nat) option" where
  \<comment> \<open>\<open>/!\[([^\]]*)\]\(([^)]+)\)/\<close>\<close>
  "matchMdEmbed content i =
     (if startsWith (drop i content) ''!''
      then map_option (\<lambda>(g, n). (g, 1 + n)) (mdBody (drop (i + 1) content))
      else None)"

definition matchMdLink :: "string \<Rightarrow> nat \<Rightarrow> ((string \<times> string) \<times> nat) option" where
  \<comment> \<open>\<open>/(?<!!)\[([^\]]*)\]\(([^)]+)\)/\<close>\<close>
  "matchMdLink content i =
     (if notAfterBang content i then mdBody (drop i content) else None)"

text \<open>
  The loop \<open>while ((m = re.exec(content)) !== null)\<close> of a global pattern: search from
  \<open>lastIndex\<close> for the first position that matches, report it, and go on from its end. A
  match of length zero would leave \<open>lastIndex\<close> where it is and the source's loop would not
  end; no pattern here can produce one (\<open>matchers_nonempty\<close> below), and the model stops.
\<close>

function execAll :: "(string \<Rightarrow> nat \<Rightarrow> ('g \<times> nat) option) \<Rightarrow> string \<Rightarrow> nat \<Rightarrow> (nat \<times> nat \<times> 'g) list" where
  "execAll m content i =
     (if length content < i then []
      else case m content i of
             None \<Rightarrow> execAll m content (i + 1)
           | Some (g, n) \<Rightarrow> if n = 0 then [] else (i, n, g) # execAll m content (i + n))"
  by pat_completeness auto
termination
  by (relation "measure (\<lambda>(m, content, i). length content + 1 - i)") auto

declare execAll.simps [simp del]

definition obsidianRef :: "RefKind \<Rightarrow> string \<Rightarrow> nat \<times> nat \<times> string \<Rightarrow> AttachmentRef" where
  "obsidianRef k content mt =
     (case mt of (i, n, inner) \<Rightarrow>
        (let parsed = parseObsidianLinkTarget inner
         in \<lparr>start = i, end' = i + n, kind = k, raw = slice content i (i + n),
             target = fst parsed, label = snd parsed, suffix = None\<rparr>))"

definition mdRef :: "RefKind \<Rightarrow> string \<Rightarrow> nat \<times> nat \<times> string \<times> string \<Rightarrow> AttachmentRef" where
  "mdRef k content mt =
     (case mt of (i, n, alt, destRaw) \<Rightarrow>
        (let parsed = parseMarkdownDest destRaw
         in \<lparr>start = i, end' = i + n, kind = k, raw = slice content i (i + n),
             target = fst parsed, label = Some alt, suffix = snd parsed\<rparr>))"

definition extractAttachmentRefs :: "string \<Rightarrow> AttachmentRef list" where
  "extractAttachmentRefs content =
     sort_key start
       (map (obsidianRef ObsidianEmbed content) (execAll matchObsidianEmbed content 0)
        @ map (obsidianRef ObsidianLink content) (execAll matchObsidianLink content 0)
        @ map (mdRef MdEmbed content) (execAll matchMdEmbed content 0)
        @ map (mdRef MdLink content) (execAll matchMdLink content 0))"

section \<open>Replacement renderer\<close>

definition getMethodForFile :: "MimeType \<Rightarrow> TFile \<Rightarrow> string" where
  "getMethodForFile mimeType file = getMethod mimeType (getMIME mimeType (extension file))"

definition orEmpty :: "string option \<Rightarrow> string" where
  \<comment> \<open>\<open>v ?? ""\<close>\<close>
  "orEmpty v = (case v of None \<Rightarrow> [] | Some s \<Rightarrow> s)"

definition orElse :: "string \<Rightarrow> string \<Rightarrow> string" where
  \<comment> \<open>\<open>a || b\<close> on strings\<close>
  "orElse a b = (if a \<noteq> [] then a else b)"

definition buildReplacement :: "MimeType \<Rightarrow> AttachmentRef \<Rightarrow> string \<Rightarrow> TFile \<Rightarrow> string" where
  "buildReplacement mimeType ref url resolved =
     (let method = getMethodForFile mimeType resolved;
          urlWithSuffix = url @ orEmpty (suffix ref)
      in if method = ''iframe''
         then ''<iframe src='' @ [CHR 0x22] @ urlWithSuffix @ [CHR 0x22] @ '' alt='' @ [CHR 0x22]
              @ name resolved @ [CHR 0x22] @ '' style='' @ [CHR 0x22]
              @ ''overflow:hidden;height:400;width:100%'' @ [CHR 0x22]
              @ '' allowfullscreen></iframe>''
         else if method = ''img''
         then (let alt = (if kind ref = MdEmbed then orEmpty (label ref) else [])
               in ''!['' @ alt @ '']('' @ urlWithSuffix @ '')'')
         else if kind ref = MdLink
         then (let lbl = orElse (trim (orEmpty (label ref))) (basename resolved)
               in ''['' @ lbl @ '']('' @ urlWithSuffix @ '')'')
         else if kind ref = ObsidianLink
         then (let lbl = orElse (trim (orEmpty (label ref))) (basename resolved)
               in ''['' @ lbl @ '']('' @ urlWithSuffix @ '')'')
         else urlWithSuffix)"

section \<open>Patch applier\<close>

definition applyOne :: "string \<Rightarrow> Replacement \<Rightarrow> string" where
  \<comment> \<open>the body of the loop: \<open>next.slice(0, r.start) + r.newText + next.slice(r.end)\<close>\<close>
  "applyOne next r = slice next 0 (start r) @ newText r @ sliceFrom next (end' r)"

definition sortDescending :: "Replacement list \<Rightarrow> Replacement list" where
  \<comment> \<open>\<open>replacements.sort((a, b) => b.start - a.start)\<close>; the sort is stable\<close>
  "sortDescending reps = sort_key (\<lambda>r. - int (start r)) reps"

definition applyReplacements :: "string \<Rightarrow> Replacement list \<Rightarrow> string" where
  "applyReplacements content reps = foldl applyOne content (sortDescending reps)"

text \<open>
  What the specification asks of the patched text, written without any order of
  application: walk the spans from left to right, copy the text between them and put each
  span's new text in its place.
\<close>

fun splice :: "string \<Rightarrow> nat \<Rightarrow> Replacement list \<Rightarrow> string" where
  "splice content pos [] = drop pos content"
| "splice content pos (r # rs) =
     take (start r - pos) (drop pos content) @ newText r @ splice content (end' r) rs"

definition sizeChange :: "Replacement list \<Rightarrow> int" where
  "sizeChange reps = (\<Sum>r\<leftarrow>reps. int (length (newText r)) - (int (end' r) - int (start r)))"

definition spansWithin :: "string \<Rightarrow> Replacement list \<Rightarrow> bool" where
  \<comment> \<open>every span is a non-empty range of the text, as the span of a matched reference is\<close>
  "spansWithin content reps = list_all (\<lambda>r. start r < end' r \<and> end' r \<le> length content) reps"

definition disjointSpans :: "'a Span_scheme list \<Rightarrow> bool" where
  \<comment> \<open>any two spans of the list lie one after the other\<close>
  "disjointSpans reps = sorted_wrt (\<lambda>a b. end' a \<le> start b \<or> end' b \<le> start a) reps"

definition ascChain :: "nat \<Rightarrow> nat \<Rightarrow> Replacement list \<Rightarrow> bool" where
  \<comment> \<open>non-empty spans between \<open>lo\<close> and \<open>hi\<close>, each ending before the next one starts\<close>
  "ascChain lo hi rs =
     ((\<forall>r\<in>set rs. lo \<le> start r \<and> start r < end' r \<and> end' r \<le> hi)
      \<and> sorted_wrt (\<lambda>a b. end' a \<le> start b) rs)"

definition ofKind :: "RefKind \<Rightarrow> AttachmentRef \<Rightarrow> bool" where
  "ofKind k r = (kind r = k)"

definition spanChain :: "RefKind \<Rightarrow> AttachmentRef list \<Rightarrow> bool" where
  \<comment> \<open>references of one kind, each non-empty and ending before the next one starts\<close>
  "spanChain k rs =
     (sorted_wrt (\<lambda>a b. end' a \<le> start b) rs
      \<and> (\<forall>r\<in>set rs. kind r = k \<and> start r < end' r))"

definition shiftBefore :: "Replacement list \<Rightarrow> nat \<Rightarrow> int" where
  \<comment> \<open>how far position \<open>p\<close> of the text moves: the size change of the spans that end at or
      before \<open>p\<close>\<close>
  "shiftBefore reps p = sizeChange (filter (\<lambda>r. end' r \<le> p) reps)"

definition outsideSpans :: "Replacement list \<Rightarrow> nat \<Rightarrow> bool" where
  "outsideSpans reps p = list_all (\<lambda>r. p < start r \<or> end' r \<le> p) reps"

section \<open>Batch orchestrator\<close>

definition candidateRefs :: "MimeType \<Rightarrow> string \<Rightarrow> AttachmentRef list" where
  \<comment> \<open>\<open>extractAttachmentRefs(content).filter((r) => isAttachmentCandidate(r.target))\<close>\<close>
  "candidateRefs mimeType content =
     filter (\<lambda>r. isAttachmentCandidate mimeType (target r)) (extractAttachmentRefs content)"

definition emptyTarget :: "string \<Rightarrow> bool" where
  \<comment> \<open>the guard \<open>!ref.target || ref.target.trim() === ""\<close>\<close>
  "emptyTarget t = (t = [] \<or> trim t = [])"

section \<open>Hashing, options, report and trace\<close>

definition hexDigit :: "nat \<Rightarrow> char" where
  "hexDigit n = (if n < 10 then char_of (48 + n) else char_of (87 + n))"

definition buf2hex :: "string \<Rightarrow> string" where
  \<comment> \<open>a buffer is a list of bytes; each byte prints as two hexadecimal digits\<close>
  "buf2hex buffer =
     concat (map (\<lambda>c. [hexDigit ((of_char c :: nat) div 16), hexDigit ((of_char c :: nat) mod 16)])
               buffer)"

datatype ConvertScope = CurrentNote | CurrentFolder | EntireVault

datatype LinkMode = Proxy | Public

record ConvertAttachmentsOptions =
  scope :: ConvertScope
  dryRun :: bool
  makeBackup :: bool
  linkMode :: LinkMode

record ConvertReport =
  notesScanned :: nat
  refsFound :: nat
  refsRemoteSkipped :: nat
  refsUnresolved :: nat
  attachmentsUnsupported :: nat
  uploadsAttempted :: nat
  uploadsSkippedAlreadyExists :: nat
  uploadsSucceeded :: nat
  uploadsFailed :: nat
  notesChanged :: nat
  linksRewritten :: nat
  backupCreated :: nat
  errors :: "string list"
  previewLines :: "string list"

text \<open>
  Every call that leaves the converter is recorded, with its answer, in a trace. An answer
  \<open>Inl e\<close> is an exception whose text \<open>String(e)\<close> is \<open>e\<close>. The calls made for a resolved
  file carry the path of that file, so that the calls made for one file can be counted.
\<close>

datatype event =
    EvNotice string
  | EvRead string "string + string"
      \<comment> \<open>\<open>vault.read(note)\<close>: path of the note, text\<close>
  | EvResolve string string "TFile option"
      \<comment> \<open>\<open>getFirstLinkpathDest(target, note.path)\<close>\<close>
  | EvReadBinary string "string + string"
      \<comment> \<open>\<open>vault.readBinary(file)\<close>: path of the file, bytes\<close>
  | EvDigest string "string + string"
      \<comment> \<open>\<open>crypto.subtle.digest\<close> on the bytes of the file at this path\<close>
  | EvObjectExists string string "string + bool"
      \<comment> \<open>\<open>objectExists(fileName)\<close> for the file at this path\<close>
  | EvUpload string string "string + unit"
      \<comment> \<open>\<open>upload(fileObj, fileName)\<close> for the file at this path\<close>
  | EvCopy string string "string + unit"
      \<comment> \<open>\<open>vault.copy(note, target)\<close>\<close>
  | EvModify string string "string + unit"
      \<comment> \<open>\<open>vault.modify(note, text)\<close>\<close>

text \<open>
  The host application, the vault, the link resolver and the object store are not part of
  the converter. Each of their operations is a parameter; an operation whose answer can
  change while the converter runs takes the trace so far, so that a second call may be
  answered differently from the first.
\<close>

record Env =
  mimeType :: MimeType
  hasS3 :: bool
  activeFile :: "TFile option"
  markdownFiles :: "TFile list"
  vaultRead :: "event list \<Rightarrow> TFile \<Rightarrow> string + string"
  getFirstLinkpathDest :: "event list \<Rightarrow> string \<Rightarrow> string \<Rightarrow> TFile option"
  vaultReadBinary :: "event list \<Rightarrow> TFile \<Rightarrow> string + string"
  cryptoDigest :: "string \<Rightarrow> string + string"
  dateNow :: "event list \<Rightarrow> nat"
  publicBaseUrl :: string
  serverUrl :: string
  createPublicURL :: "string \<Rightarrow> string \<Rightarrow> string option"
  createObjURL :: "string \<Rightarrow> string \<Rightarrow> string option"
  objectExists :: "event list \<Rightarrow> string \<Rightarrow> string + bool"
  upload :: "event list \<Rightarrow> string \<Rightarrow> string \<Rightarrow> string \<Rightarrow> string \<Rightarrow> string + unit"
      \<comment> \<open>bytes, name and MIME type of the \<open>File\<close> object, then the object name\<close>
  vaultPaths :: "event list \<Rightarrow> string list"
      \<comment> \<open>the paths for which \<open>getAbstractFileByPath\<close> finds a file\<close>
  vaultCopy :: "event list \<Rightarrow> TFile \<Rightarrow> string \<Rightarrow> string + unit"
  vaultModify :: "event list \<Rightarrow> TFile \<Rightarrow> string \<Rightarrow> string + unit"

text \<open>
  The state of one run: the report under construction, the map from vault path to remote
  URL, the trace, and the exception that left \<open>convertAttachments\<close>, if one did (the
  caller then gets no report).
\<close>

record RunState = ConvertReport +
  resolvedUrlByVaultPath :: "string \<rightharpoonup> string"
  trace :: "event list"
  thrown :: "string option"

definition emit :: "event \<Rightarrow> RunState \<Rightarrow> RunState" where
  "emit ev st = st\<lparr>trace := trace st @ [ev]\<rparr>"

definition listMarkdownFilesInFolder :: "Env \<Rightarrow> string \<Rightarrow> TFile list" where
  "listMarkdownFilesInFolder env folderPath =
     (let normalized = rev (dropWhile (\<lambda>c. c = CHR ''/'') (rev folderPath))
      in filter (\<lambda>f. startsWith (path f) (normalized @ ''/'')) (markdownFiles env))"

definition getScopeFiles :: "Env \<Rightarrow> ConvertScope \<Rightarrow> TFile list" where
  "getScopeFiles env sc =
     (case sc of
        CurrentNote \<Rightarrow> (case activeFile env of Some active \<Rightarrow> [active] | None \<Rightarrow> [])
      | CurrentFolder \<Rightarrow>
          (case activeFile env of
             None \<Rightarrow> []
           | Some active \<Rightarrow>
               (case parent active of
                  None \<Rightarrow> []
                | Some folder \<Rightarrow> listMarkdownFilesInFolder env folder))
      | EntireVault \<Rightarrow> markdownFiles env)"

definition buildTargetUrl :: "Env \<Rightarrow> string \<Rightarrow> LinkMode \<Rightarrow> RunState \<Rightarrow> RunState \<times> string option" where
  "buildTargetUrl env fileName mode st =
     (if mode = Public \<and> isTruthy (createPublicURL env fileName (publicBaseUrl env))
      then (st, createPublicURL env fileName (publicBaseUrl env))
      else ((if mode = Public
             then emit (EvNotice (''S3: Public link mode requested but '' @ [CHR 0x22]
                          @ ''Public Base URL'' @ [CHR 0x22]
                          @ '' is not set. Falling back to local proxy links.'')) st
             else st),
            createObjURL env (serverUrl env) fileName))"

definition uploadFailedMessage :: "string \<Rightarrow> string \<Rightarrow> string" where
  "uploadFailedMessage p e = ''Upload failed for '' @ p @ '': '' @ e"

definition noTargetUrlMessage :: "string \<Rightarrow> string" where
  "noTargetUrlMessage p = ''Unable to create target URL for '' @ p"

definition catchUploadError :: "TFile \<Rightarrow> string \<Rightarrow> RunState \<Rightarrow> RunState" where
  \<comment> \<open>the \<open>catch\<close> block\<close>
  "catchUploadError resolved e st =
     st\<lparr>uploadsFailed := uploadsFailed st + 1,
        errors := errors st @ [uploadFailedMessage (path resolved) e]\<rparr>"

definition uploadIfAbsent ::
  "Env \<Rightarrow> ConvertAttachmentsOptions \<Rightarrow> TFile \<Rightarrow> string \<Rightarrow> string \<Rightarrow> RunState \<Rightarrow> RunState \<times> string option" where
  \<comment> \<open>the existence check and the upload; the second component is the exception thrown\<close>
  "uploadIfAbsent env opts resolved bytes fileName st =
     (let ex = objectExists env (trace st) fileName;
          st1 = emit (EvObjectExists (path resolved) fileName ex) st
      in case ex of
           Inl e \<Rightarrow> (st1, Some e)
         | Inr exists \<Rightarrow>
             if exists
             then (st1\<lparr>uploadsSkippedAlreadyExists := uploadsSkippedAlreadyExists st1 + 1\<rparr>, None)
             else (let st2 = st1\<lparr>uploadsAttempted := uploadsAttempted st1 + 1\<rparr>
                   in if dryRun opts then (st2, None)
                      else (let mime = getMIME (mimeType env) (extension resolved);
                                up = upload env (trace st2) bytes (name resolved) mime fileName;
                                st3 = emit (EvUpload (path resolved) fileName up) st2
                            in case up of
                                 Inl e \<Rightarrow> (st3, Some e)
                               | Inr u \<Rightarrow> (st3\<lparr>uploadsSucceeded := uploadsSucceeded st3 + 1\<rparr>, None))))"

definition tryUpload ::
  "Env \<Rightarrow> ConvertAttachmentsOptions \<Rightarrow> TFile \<Rightarrow> RunState \<Rightarrow> RunState \<times> string option" where
  \<comment> \<open>the \<open>try\<close> statement for a file without a URL yet: the new state, and the URL when
      there is one to rewrite with\<close>
  "tryUpload env opts resolved st =
     (let rb = vaultReadBinary env (trace st) resolved;
          st1 = emit (EvReadBinary (path resolved) rb) st
      in case rb of
           Inl e \<Rightarrow> (catchUploadError resolved e st1, None)
         | Inr bytes \<Rightarrow>
             (let dg = cryptoDigest env bytes;
                  st2 = emit (EvDigest (path resolved) dg) st1
              in case dg of
                   Inl e \<Rightarrow> (catchUploadError resolved e st2, None)
                 | Inr hashBuf \<Rightarrow>
                     (let fileName = generateResourceName (dateNow env (trace st2)) (name resolved)
                                       None (Some (buf2hex hashBuf));
                          (st3, targetUrl) = buildTargetUrl env fileName (linkMode opts) st2
                      in if \<not> isTruthy targetUrl
                         then (st3\<lparr>errors := errors st3 @ [noTargetUrlMessage (path resolved)]\<rparr>,
                               None)
                         else (case uploadIfAbsent env opts resolved bytes fileName st3 of
                                 (st4, Some e) \<Rightarrow> (catchUploadError resolved e st4, None)
                               | (st4, None) \<Rightarrow>
                                   (st4\<lparr>resolvedUrlByVaultPath :=
                                          (resolvedUrlByVaultPath st4)
                                            (path resolved := targetUrl)\<rparr>,
                                    targetUrl)))))"

definition ensureUrl ::
  "Env \<Rightarrow> ConvertAttachmentsOptions \<Rightarrow> TFile \<Rightarrow> RunState \<Rightarrow> RunState \<times> string option" where
  \<comment> \<open>\<open>let url = resolvedUrlByVaultPath.get(resolved.path); if (!url) { ... }\<close>\<close>
  "ensureUrl env opts resolved st =
     (if isTruthy (resolvedUrlByVaultPath st (path resolved))
      then (st, resolvedUrlByVaultPath st (path resolved))
      else tryUpload env opts resolved st)"

definition processRef ::
  "Env \<Rightarrow> ConvertAttachmentsOptions \<Rightarrow> TFile \<Rightarrow> RunState \<times> Replacement list \<Rightarrow> AttachmentRef
     \<Rightarrow> RunState \<times> Replacement list" where
  \<comment> \<open>the body of \<open>for (const ref of refs)\<close>\<close>
  "processRef env opts note acc ref =
     (case acc of (st, replacements) \<Rightarrow>
        if emptyTarget (target ref) then (st, replacements)
        else if isProbablyRemoteLink (target ref)
        then (st\<lparr>refsRemoteSkipped := refsRemoteSkipped st + 1\<rparr>, replacements)
        else
          (let found = getFirstLinkpathDest env (trace st) (target ref) (path note);
               st1 = emit (EvResolve (target ref) (path note) found) st
           in case found of
                None \<Rightarrow>
                  (st1\<lparr>refsUnresolved := refsUnresolved st1 + 1,
                       previewLines := previewLines st1
                         @ [''[UNRESOLVED] '' @ path note @ '': '' @ raw ref]\<rparr>,
                   replacements)
              | Some resolved \<Rightarrow>
                  if extension resolved = ''md'' \<or> \<not> includeEXT (mimeType env) (extension resolved)
                  then (st1\<lparr>attachmentsUnsupported := attachmentsUnsupported st1 + 1\<rparr>,
                        replacements)
                  else
                    (case ensureUrl env opts resolved st1 of
                       (st2, None) \<Rightarrow> (st2, replacements)
                     | (st2, Some url) \<Rightarrow>
                         (let newText = buildReplacement (mimeType env) ref url resolved
                          in if newText \<noteq> raw ref
                             then (st2\<lparr>linksRewritten := linksRewritten st2 + 1,
                                       previewLines := previewLines st2
                                         @ [''[REWRITE] '' @ path note @ '': '' @ raw ref
                                            @ '' -> '' @ newText]\<rparr>,
                                   replacements
                                     @ [\<lparr>start = start ref, end' = end' ref, newText = newText\<rparr>])
                             else (st2, replacements)))))"

definition backupName :: "string \<Rightarrow> nat \<Rightarrow> string" where
  \<comment> \<open>the value of \<open>target\<close> when the counter of \<open>ensureBackup\<close> is \<open>n\<close>\<close>
  "backupName base n = (if n = 0 then base else base @ ''.'' @ showNat n)"

declare showNat.simps [simp del]

lemma showNat_nonempty: "showNat n \<noteq> []"
  by (subst showNat.simps) simp

lemma digit_inj:
  fixes a b :: nat
  shows "a < 10 \<Longrightarrow> b < 10 \<Longrightarrow> (char_of (48 + a) :: char) = char_of (48 + b) \<Longrightarrow> a = b"
proof -
  assume a: "a < 10" and b: "b < 10" and e: "(char_of (48 + a) :: char) = char_of (48 + b)"
  from e have "(of_char (char_of (48 + a) :: char) :: nat) = of_char (char_of (48 + b) :: char)"
    by simp
  then have "(48 + a) mod 256 = (48 + b) mod 256" by simp
  then show "a = b" using a b by simp
qed

lemma showNat_inj: "showNat n = showNat m \<Longrightarrow> n = m"
proof (induction n arbitrary: m rule: showNat.induct)
  case (1 n)
  show ?case
  proof (cases "n < 10")
    case True
    then have n1: "showNat n = [char_of (48 + n)]" by (subst showNat.simps) simp
    show ?thesis
    proof (cases "m < 10")
      case True
      then have "showNat m = [char_of (48 + m)]" by (subst showNat.simps) simp
      then show ?thesis using n1 "1.prems" \<open>n < 10\<close> True digit_inj by simp
    next
      case False
      then have "showNat m = showNat (m div 10) @ [char_of (48 + m mod 10)]"
        by (subst showNat.simps) simp
      then have "length (showNat m) \<ge> 2"
        using showNat_nonempty[of "m div 10"] by (cases "showNat (m div 10)") auto
      then show ?thesis using n1 "1.prems" by simp
    qed
  next
    case False
    then have n2: "showNat n = showNat (n div 10) @ [char_of (48 + n mod 10)]"
      by (subst showNat.simps) simp
    show ?thesis
    proof (cases "m < 10")
      case True
      then have "showNat m = [char_of (48 + m)]" by (subst showNat.simps) simp
      moreover have "length (showNat n) \<ge> 2"
        using n2 showNat_nonempty[of "n div 10"] by (cases "showNat (n div 10)") auto
      ultimately show ?thesis using "1.prems" by simp
    next
      case mf: False
      then have m2: "showNat m = showNat (m div 10) @ [char_of (48 + m mod 10)]"
        by (subst showNat.simps) simp
      from n2 m2 "1.prems" have e1: "showNat (n div 10) = showNat (m div 10)"
        and e2: "(char_of (48 + n mod 10) :: char) = char_of (48 + m mod 10)"
        by simp_all
      have "n div 10 = m div 10" using "1.IH"[OF False e1] .
      moreover have "n mod 10 = m mod 10" using digit_inj[OF _ _ e2] by simp
      ultimately show ?thesis by (metis div_mult_mod_eq)
    qed
  qed
qed

lemma backupName_inj: "backupName base n = backupName base m \<Longrightarrow> n = m"
  by (auto simp: backupName_def showNat_inj split: if_splits)

text \<open>
  The loop of \<open>ensureBackup\<close> tries \<open>base\<close>, \<open>base.1\<close>, \<open>base.2\<close>, ... until no file has
  that path. The names are pairwise different and the vault holds finitely many files, so
  the loop ends.
\<close>

function backupTarget :: "string list \<Rightarrow> string \<Rightarrow> nat \<Rightarrow> string" where
  "backupTarget paths base n =
     (if backupName base n \<in> set paths then backupTarget paths base (n + 1)
      else backupName base n)"
  by pat_completeness auto
termination
proof (relation "measure (\<lambda>(paths, base, n). card {p \<in> set paths. \<exists>k\<ge>n. p = backupName base k})")
  show "wf (measure (\<lambda>(paths, base, n). card {p \<in> set paths. \<exists>k\<ge>n. p = backupName base k}))"
    by simp
next
  fix paths :: "string list" and base :: string and n :: nat
  assume mem: "backupName base n \<in> set paths"
  let ?A = "\<lambda>i. {p \<in> set paths. \<exists>k\<ge>i. p = backupName base k}"
  have "backupName base n \<in> ?A n" using mem by auto
  moreover have "backupName base n \<notin> ?A (n + 1)"
  proof
    assume "backupName base n \<in> ?A (n + 1)"
    then obtain k where "k \<ge> n + 1" "backupName base n = backupName base k" by auto
    then show False using backupName_inj by fastforce
  qed
  moreover have "?A (n + 1) \<subseteq> ?A n"
  proof
    fix p assume "p \<in> ?A (n + 1)"
    then obtain k where k: "k \<ge> n + 1" "p = backupName base k" "p \<in> set paths" by auto
    then have "k \<ge> n" by simp
    then show "p \<in> ?A n" using k by blast
  qed
  ultimately have "?A (n + 1) \<subset> ?A n" by blast
  moreover have "finite (?A n)" by simp
  ultimately have "card (?A (n + 1)) < card (?A n)" by (rule psubset_card_mono[rotated])
  then show "((paths, base, n + 1), (paths, base, n))
        \<in> measure (\<lambda>(paths, base, n). card {p \<in> set paths. \<exists>k\<ge>n. p = backupName base k})"
    by simp
qed

declare backupTarget.simps [simp del]

definition ensureBackup :: "Env \<Rightarrow> TFile \<Rightarrow> RunState \<Rightarrow> RunState" where
  "ensureBackup env note st =
     (let tgt = backupTarget (vaultPaths env (trace st)) (path note @ ''.bak'') 0;
          r = vaultCopy env (trace st) note tgt;
          st1 = emit (EvCopy (path note) tgt r) st
      in case r of Inl e \<Rightarrow> st1\<lparr>thrown := Some e\<rparr> | Inr u \<Rightarrow> st1)"

definition persist :: "Env \<Rightarrow> ConvertAttachmentsOptions \<Rightarrow> TFile \<Rightarrow> string \<Rightarrow> RunState \<Rightarrow> RunState" where
  \<comment> \<open>the block under \<open>if (!opts.dryRun)\<close>: the optional backup, then the write\<close>
  "persist env opts note next st =
     (let st1 = (if makeBackup opts
                 then (let b = ensureBackup env note st
                       in if thrown b = None then b\<lparr>backupCreated := backupCreated b + 1\<rparr> else b)
                 else st)
      in if thrown st1 \<noteq> None then st1
         else (let r = vaultModify env (trace st1) note next;
                   st2 = emit (EvModify (path note) next r) st1
               in case r of
                    Inl e \<Rightarrow> st2\<lparr>thrown := Some e\<rparr>
                  | Inr u \<Rightarrow> st2\<lparr>notesChanged := notesChanged st2 + 1\<rparr>))"

definition processNote :: "Env \<Rightarrow> ConvertAttachmentsOptions \<Rightarrow> RunState \<Rightarrow> TFile \<Rightarrow> RunState" where
  \<comment> \<open>the body of \<open>for (const note of scopeFiles)\<close>; after an exception has left the
      function no further note is processed\<close>
  "processNote env opts st note =
     (if thrown st \<noteq> None then st
      else (let st1 = st\<lparr>notesScanned := notesScanned st + 1\<rparr>;
                rd = vaultRead env (trace st1) note;
                st2 = emit (EvRead (path note) rd) st1
            in case rd of
                 Inl e \<Rightarrow> st2\<lparr>thrown := Some e\<rparr>
               | Inr content \<Rightarrow>
                   (let refs = candidateRefs (mimeType env) content;
                        st3 = st2\<lparr>refsFound := refsFound st2 + length refs\<rparr>;
                        (st4, replacements) = foldl (processRef env opts note) (st3, []) refs
                    in if replacements = [] then st4
                       else (let next = applyReplacements content replacements
                             in if dryRun opts then st4
                                else persist env opts note next st4))))"

definition initialState :: RunState where
  "initialState =
     \<lparr>notesScanned = 0, refsFound = 0, refsRemoteSkipped = 0, refsUnresolved = 0,
      attachmentsUnsupported = 0, uploadsAttempted = 0, uploadsSkippedAlreadyExists = 0,
      uploadsSucceeded = 0, uploadsFailed = 0, notesChanged = 0, linksRewritten = 0,
      backupCreated = 0, errors = [], previewLines = [],
      resolvedUrlByVaultPath = Map.empty, trace = [], thrown = None\<rparr>"

definition finalNotice :: "ConvertAttachmentsOptions \<Rightarrow> RunState \<Rightarrow> string" where
  "finalNotice opts st =
     (if dryRun opts
      then ''S3 dry-run: scanned '' @ showNat (notesScanned st) @ '' notes, would rewrite ''
           @ showNat (linksRewritten st) @ '' links.''
      else ''S3: scanned '' @ showNat (notesScanned st) @ '' notes, rewrote ''
           @ showNat (linksRewritten st) @ '' links, uploaded ''
           @ showNat (uploadsSucceeded st) @ '' files.'')"

definition convertAttachments :: "Env \<Rightarrow> ConvertAttachmentsOptions \<Rightarrow> RunState" where
  "convertAttachments env opts =
     (if \<not> hasS3 env
      then emit (EvNotice ''S3: No active S3 client. Check your settings.'') initialState
      else (let scopeFiles = getScopeFiles env (scope opts)
            in if scopeFiles = []
               then emit (EvNotice ''S3: No notes found for the chosen scope.'') initialState
               else (let st = foldl (processNote env opts) initialState scopeFiles
                     in if thrown st \<noteq> None then st
                        else emit (EvNotice (finalNotice opts st)) st)))"

section \<open>Reading the trace and the report\<close>

definition isReadBinaryOf :: "string \<Rightarrow> event \<Rightarrow> bool" where
  "isReadBinaryOf p ev = (case ev of EvReadBinary q r \<Rightarrow> q = p | _ \<Rightarrow> False)"

definition isDigestOf :: "string \<Rightarrow> event \<Rightarrow> bool" where
  "isDigestOf p ev = (case ev of EvDigest q r \<Rightarrow> q = p | _ \<Rightarrow> False)"

definition isUploadOf :: "string \<Rightarrow> event \<Rightarrow> bool" where
  "isUploadOf p ev = (case ev of EvUpload q n r \<Rightarrow> q = p | _ \<Rightarrow> False)"

definition isCompletedUploadOf :: "string \<Rightarrow> event \<Rightarrow> bool" where
  "isCompletedUploadOf p ev = (case ev of EvUpload q n (Inr u) \<Rightarrow> q = p | _ \<Rightarrow> False)"

definition isExistenceAnswerOf :: "string \<Rightarrow> event \<Rightarrow> bool" where
  "isExistenceAnswerOf p ev = (case ev of EvObjectExists q n (Inr b) \<Rightarrow> q = p | _ \<Rightarrow> False)"

definition isAbsentAnswer :: "event \<Rightarrow> bool" where
  \<comment> \<open>an existence check that answered: no such object\<close>
  "isAbsentAnswer ev = (case ev of EvObjectExists q n (Inr b) \<Rightarrow> \<not> b | _ \<Rightarrow> False)"

definition isWrite :: "event \<Rightarrow> bool" where
  \<comment> \<open>an upload, a backup copy or a write of a note\<close>
  "isWrite ev =
     (case ev of EvUpload q n r \<Rightarrow> True | EvCopy q t r \<Rightarrow> True | EvModify q t r \<Rightarrow> True
      | _ \<Rightarrow> False)"

definition isFailedCall :: "event \<Rightarrow> bool" where
  \<comment> \<open>a call inside the \<open>try\<close> statement that threw\<close>
  "isFailedCall ev =
     (case ev of
        EvReadBinary q (Inl e) \<Rightarrow> True
      | EvDigest q (Inl e) \<Rightarrow> True
      | EvObjectExists q n (Inl e) \<Rightarrow> True
      | EvUpload q n (Inl e) \<Rightarrow> True
      | _ \<Rightarrow> False)"

definition isResolveOfRemote :: "event \<Rightarrow> bool" where
  "isResolveOfRemote ev = (case ev of EvResolve t src r \<Rightarrow> isProbablyRemoteLink t | _ \<Rightarrow> False)"

definition failureMessageFor :: "string \<Rightarrow> string \<Rightarrow> bool" where
  \<comment> \<open>an entry of the error list written for the file at path \<open>p\<close>\<close>
  "failureMessageFor p msg =
     (startsWith msg (uploadFailedMessage p []) \<or> msg = noTargetUrlMessage p)"

definition countOf :: "('a \<Rightarrow> bool) \<Rightarrow> 'a list \<Rightarrow> nat" where
  "countOf P xs = length (filter P xs)"

definition isRemoteRef :: "AttachmentRef \<Rightarrow> bool" where
  "isRemoteRef r = isProbablyRemoteLink (target r)"

definition remoteCandidates :: "MimeType \<Rightarrow> event \<Rightarrow> nat" where
  \<comment> \<open>the number of candidate references with a remote target in a text that was read\<close>
  "remoteCandidates mt ev =
     (case ev of
        EvRead q (Inr content) \<Rightarrow>
          countOf isRemoteRef (candidateRefs mt content)
      | _ \<Rightarrow> 0)"

definition cached :: "RunState \<Rightarrow> string \<Rightarrow> nat" where
  \<comment> \<open>1 when the map holds a URL for the path, 0 otherwise\<close>
  "cached st p = (if isTruthy (resolvedUrlByVaultPath st p) then 1 else 0)"

definition urlNotices :: "Env \<Rightarrow> string \<Rightarrow> LinkMode \<Rightarrow> string list" where
  "urlNotices env fileName mode =
     (if mode = Public \<and> \<not> isTruthy (createPublicURL env fileName (publicBaseUrl env))
      then [''S3: Public link mode requested but '' @ [CHR 0x22]
                          @ ''Public Base URL'' @ [CHR 0x22]
                          @ '' is not set. Falling back to local proxy links.'']
      else [])"

text \<open>
  Invariants of a run are proved once for every property of the state that survives the
  four kinds of step a run is made of: an upload attempt for a file without a URL, a call
  that only reads (a notice, the read of a note, the resolution of a target that is not
  remote), an update of the counters and lists that only describe the references, and, when
  the run is not a dry run, the backup and the write of a note.
\<close>

definition isQuiet :: "event \<Rightarrow> bool" where
  "isQuiet ev =
     (case ev of
        EvNotice m \<Rightarrow> True
      | EvRead q r \<Rightarrow> True
      | EvResolve t src r \<Rightarrow> \<not> isProbablyRemoteLink t
      | _ \<Rightarrow> False)"

definition isNoteWrite :: "event \<Rightarrow> bool" where
  "isNoteWrite ev = (case ev of EvCopy q t r \<Rightarrow> True | EvModify q t r \<Rightarrow> True | _ \<Rightarrow> False)"

definition sameUploads :: "RunState \<Rightarrow> RunState \<Rightarrow> bool" where
  "sameUploads st st' =
     (resolvedUrlByVaultPath st' = resolvedUrlByVaultPath st \<and> errors st' = errors st
      \<and> uploadsAttempted st' = uploadsAttempted st
      \<and> uploadsSkippedAlreadyExists st' = uploadsSkippedAlreadyExists st
      \<and> uploadsSucceeded st' = uploadsSucceeded st \<and> uploadsFailed st' = uploadsFailed st)"

definition bookkeeping :: "RunState \<Rightarrow> RunState \<Rightarrow> bool" where
  "bookkeeping st st' =
     (sameUploads st st' \<and> trace st' = trace st
      \<and> notesChanged st' = notesChanged st \<and> backupCreated st' = backupCreated st)"

definition persisted :: "RunState \<Rightarrow> RunState \<Rightarrow> bool" where
  "persisted st st' =
     (sameUploads st st' \<and> (\<exists>evs. trace st' = trace st @ evs \<and> list_all isNoteWrite evs))"

definition preserved :: "Env \<Rightarrow> ConvertAttachmentsOptions \<Rightarrow> (RunState \<Rightarrow> bool) \<Rightarrow> bool" where
  "preserved env opts I =
     ((\<forall>st f. I st \<longrightarrow> \<not> isTruthy (resolvedUrlByVaultPath st (path f))
          \<longrightarrow> I (fst (tryUpload env opts f st)))
      \<and> (\<forall>st ev. I st \<longrightarrow> isQuiet ev \<longrightarrow> I (emit ev st))
      \<and> (\<forall>st st'. I st \<longrightarrow> bookkeeping st st' \<longrightarrow> I st')
      \<and> (\<forall>st st'. I st \<longrightarrow> \<not> dryRun opts \<longrightarrow> persisted st st' \<longrightarrow> I st'))"

text \<open>
  The calls made for the file at path \<open>p\<close> are paid for: each reading of its bytes, each
  digest and each upload call is covered either by the URL the map holds for \<open>p\<close> or by an
  entry of the error list written for \<open>p\<close>.
\<close>

definition dedupInv :: "ConvertAttachmentsOptions \<Rightarrow> string \<Rightarrow> RunState \<Rightarrow> bool" where
  "dedupInv opts p st =
     (countOf (isReadBinaryOf p) (trace st)
        \<le> cached st p + countOf (failureMessageFor p) (errors st)
      \<and> countOf (isDigestOf p) (trace st)
        \<le> cached st p + countOf (failureMessageFor p) (errors st)
      \<and> countOf (isUploadOf p) (trace st)
        \<le> cached st p + countOf (failureMessageFor p) (errors st)
      \<and> countOf (isCompletedUploadOf p) (trace st) \<le> cached st p
      \<and> (dryRun opts \<longrightarrow> countOf (isExistenceAnswerOf p) (trace st) \<le> cached st p))"

definition countersInv :: "RunState \<Rightarrow> bool" where
  "countersInv st =
     (uploadsAttempted st = countOf isAbsentAnswer (trace st)
      \<and> uploadsFailed st = countOf isFailedCall (trace st)
      \<and> countOf isResolveOfRemote (trace st) = 0)"

definition dryRunInv :: "ConvertAttachmentsOptions \<Rightarrow> RunState \<Rightarrow> bool" where
  "dryRunInv opts st =
     (dryRun opts \<longrightarrow>
        countOf isWrite (trace st) = 0 \<and> notesChanged st = 0 \<and> backupCreated st = 0
        \<and> uploadsSucceeded st = 0)"

definition remoteDue :: "MimeType \<Rightarrow> event list \<Rightarrow> nat" where
  \<comment> \<open>the candidate references with a remote target in all the texts read so far\<close>
  "remoteDue mt tr = sum_list (map (remoteCandidates mt) tr)"


section \<open>A sample configuration\<close>

definition sampleMime :: MimeType where
  "sampleMime =
     \<lparr>includeEXT = (\<lambda>e. e \<in> set [''png'', ''pdf'', ''zip'', ''html'']),
      getMIME = (\<lambda>e. if e = ''png'' then ''image/png''
                      else if e = ''html'' then ''text/html''
                      else if e = ''pdf'' then ''application/pdf''
                      else ''application/zip''),
      getMethod = (\<lambda>m. if m = ''image/png'' then ''img''
                        else if m = ''text/html'' then ''iframe''
                        else ''link'')\<rparr>"

definition sampleFile :: TFile where
  "sampleFile = \<lparr>path = ''docs/report.pdf'', name = ''report.pdf'', basename = ''report'',
                  extension = ''pdf'', parent = Some ''docs''\<rparr>"

text \<open>The plain link as the specification describes it, with the label as it was written.\<close>

definition plainLinkAsSpecified :: "AttachmentRef \<Rightarrow> string \<Rightarrow> TFile \<Rightarrow> string" where
  "plainLinkAsSpecified ref url resolved =
     ''['' @ (if trim (orEmpty (label ref)) \<noteq> [] then orEmpty (label ref) else basename resolved)
     @ '']('' @ url @ orEmpty (suffix ref) @ '')''"

definition photoFile :: TFile where
  "photoFile = \<lparr>path = ''img/photo.png'', name = ''photo.png'', basename = ''photo'',
                 extension = ''png'', parent = Some ''img''\<rparr>"

definition noteA :: TFile where
  "noteA = \<lparr>path = ''a.md'', name = ''a.md'', basename = ''a'', extension = ''md'',
             parent = Some ''/''\<rparr>"

text \<open>
  A vault with one note that embeds the same picture twice, and an object store that holds
  nothing yet and accepts every upload.
\<close>

definition sampleEnv :: Env where
  "sampleEnv =
     \<lparr>mimeType = sampleMime, hasS3 = True, activeFile = Some noteA, markdownFiles = [noteA],
      vaultRead = (\<lambda>tr f. Inr ''![[photo.png]] and ![[photo.png]]''),
      getFirstLinkpathDest = (\<lambda>tr t src. if t = ''photo.png'' then Some photoFile else None),
      vaultReadBinary = (\<lambda>tr f. Inr ''PNG''),
      cryptoDigest = (\<lambda>b. Inr ''AB''),
      dateNow = (\<lambda>tr. 0),
      publicBaseUrl = [],
      serverUrl = ''http://localhost:4998'',
      createPublicURL = (\<lambda>n b. None),
      createObjURL = (\<lambda>s n. Some (s @ ''/'' @ n)),
      objectExists = (\<lambda>tr n. Inr False),
      upload = (\<lambda>tr b n m f. Inr ()),
      vaultPaths = (\<lambda>tr. [''a.md'', ''img/photo.png'']),
      vaultCopy = (\<lambda>tr f t. Inr ()),
      vaultModify = (\<lambda>tr f t. Inr ())\<rparr>"

definition sampleOpts :: ConvertAttachmentsOptions where
  "sampleOpts = \<lparr>scope = CurrentNote, dryRun = False, makeBackup = True, linkMode = Proxy\<rparr>"

definition dryOpts :: ConvertAttachmentsOptions where
  "dryOpts = \<lparr>scope = CurrentNote, dryRun = True, makeBackup = True, linkMode = Proxy\<rparr>"

text \<open>The same vault with an object store that refuses every upload.\<close>

definition failingEnv :: Env where
  "failingEnv = sampleEnv\<lparr>upload := (\<lambda>tr b n m f. Inl ''timeout'')\<rparr>"

text \<open>The same vault with an object store that refuses the first upload only.\<close>

definition flakyEnv :: Env where
  "flakyEnv =
     sampleEnv\<lparr>upload := (\<lambda>tr b n m f. if list_ex (isUploadOf ''img/photo.png'') tr
                                         then Inr () else Inl ''timeout'')\<rparr>"

text \<open>A note with two remote references, of which only the second names a supported file.\<close>

definition remoteEnv :: Env where
  "remoteEnv =
     sampleEnv\<lparr>vaultRead :=
       (\<lambda>tr f. Inr ''[](http://a/) ![](http://b.png)'')\<rparr>"

definition sampleRef :: AttachmentRef where
  "sampleRef = \<lparr>start = 0, end' = 14, kind = ObsidianEmbed, raw = ''![[photo.png]]'',
                 target = ''photo.png'', label = None, suffix = None\<rparr>"

definition remoteRef :: AttachmentRef where
  "remoteRef = \<lparr>start = 14, end' = 31, kind = MdEmbed, raw = ''![](http://b.png)'',
                 target = ''http://b.png'', label = Some [], suffix = None\<rparr>"

text \<open>A note whose only text is an image reference with a bracket inside its label.\<close>

definition pictureFile :: TFile where
  "pictureFile = \<lparr>path = ''a.png'', name = ''a.png'', basename = ''a'', extension = ''png'',
                   parent = Some ''/''\<rparr>"

definition nestedEnv :: Env where
  "nestedEnv =
     sampleEnv\<lparr>vaultRead := (\<lambda>tr f. Inr ''![[x](a.png)''),
               getFirstLinkpathDest := (\<lambda>tr t src. if t = ''a.png'' then Some pictureFile else None)\<rparr>"

definition writtenTexts :: "event list \<Rightarrow> string list" where
  \<comment> \<open>the texts handed to \<open>vault.modify\<close>, in the order of the calls\<close>
  "writtenTexts tr = concat (map (\<lambda>ev. case ev of EvModify q t r \<Rightarrow> [t] | _ \<Rightarrow> []) tr)"

text \<open>A note with a single reference.\<close>

definition singleEnv :: Env where
  "singleEnv = sampleEnv\<lparr>vaultRead := (\<lambda>tr f. Inr ''![[photo.png]]'')\<rparr>"

text \<open>
  Two files with the same name and the same bytes in two folders, and a note that embeds
  both.
\<close>

definition twinA :: TFile where
  "twinA = \<lparr>path = ''a/p.png'', name = ''p.png'', basename = ''p'', extension = ''png'',
             parent = Some ''a''\<rparr>"

definition twinB :: TFile where
  "twinB = \<lparr>path = ''b/p.png'', name = ''p.png'', basename = ''p'', extension = ''png'',
             parent = Some ''b''\<rparr>"

definition twinEnv :: Env where
  "twinEnv =
     sampleEnv\<lparr>vaultRead := (\<lambda>tr f. Inr ''![[a/p.png]] ![[b/p.png]]''),
               getFirstLinkpathDest :=
                 (\<lambda>tr t src. if t = ''a/p.png'' then Some twinA
                              else if t = ''b/p.png'' then Some twinB else None)\<rparr>"

definition absentObjects :: "event list \<Rightarrow> string list" where
  \<comment> \<open>the object names of the existence checks that answered: no such object\<close>
  "absentObjects tr =
     concat (map (\<lambda>ev. case ev of EvObjectExists q n (Inr b) \<Rightarrow> if b then [] else [n]
                        | _ \<Rightarrow> []) tr)"

section \<open>Properties of the string primitives\<close>

lemma split_nonempty: "split c s \<noteq> []"
  by (induction s) (auto split: list.splits)

lemma hd_split: "hd (split c s) = takeWhile (\<lambda>x. x \<noteq> c) s"
  by (induction s) (auto split: list.splits simp: split_nonempty)

lemma split_single: "c \<notin> set s \<Longrightarrow> split c s = [s]"
  by (induction s) auto

lemma split_many: "c \<in> set s \<Longrightarrow> \<exists>y z zs. split c s = y # z # zs"
proof (induction s)
  case Nil
  then show ?case by simp
next
  case (Cons x xs)
  obtain y ys where sp: "split c xs = y # ys"
    using split_nonempty[of c xs] by (cases "split c xs") auto
  show ?case
  proof (cases "x = c")
    case True
    then show ?thesis using sp by simp
  next
    case False
    then have "c \<in> set xs" using Cons.prems by simp
    then show ?thesis using Cons.IH False by auto
  qed
qed

lemma last_split: "last (split c s) = rev (takeWhile (\<lambda>x. x \<noteq> c) (rev s))"
proof (induction s)
  case Nil
  then show ?case by simp
next
  case (Cons x xs)
  show ?case
  proof (cases "c \<in> set xs")
    case True
    then obtain y z zs where sp: "split c xs = y # z # zs"
      using split_many by blast
    then show ?thesis using Cons True
      by (auto simp: takeWhile_append)
  next
    case False
    then show ?thesis
      by (auto simp: split_single takeWhile_append)
  qed
qed

lemma split_unfold:
  "c \<in> set s \<Longrightarrow>
     split c s = takeWhile (\<lambda>x. x \<noteq> c) s # split c (tl (dropWhile (\<lambda>x. x \<noteq> c) s))"
proof (induction s)
  case Nil
  then show ?case by simp
next
  case (Cons x xs)
  show ?case
  proof (cases "x = c")
    case True
    then show ?thesis by simp
  next
    case False
    then have "c \<in> set xs" using Cons.prems by simp
    then show ?thesis using Cons.IH False by simp
  qed
qed

lemma all_dropWhile: "(\<forall>x\<in>set (dropWhile P s). P x) \<longleftrightarrow> (\<forall>x\<in>set s. P x)"
  by (induction s) auto

lemma trim_empty_iff: "trim s = [] \<longleftrightarrow> (\<forall>c\<in>set s. isWhiteSpace c)"
  by (simp add: trim_def all_dropWhile)

lemma takeWhile_shorter: "c \<in> set s \<Longrightarrow> length (takeWhile (\<lambda>x. x \<noteq> c) s) < length s"
  by (induction s) auto

lemma lastIndexOf_drop:
  assumes "lastIndexOf s c = Some d"
  shows "drop (d + 1) s = rev (takeWhile (\<lambda>x. x \<noteq> c) (rev s))"
proof -
  let ?k = "length (takeWhile (\<lambda>x. x \<noteq> c) (rev s))"
  from assms have mem: "c \<in> set s" and d: "d = length s - 1 - ?k"
    by (auto simp: lastIndexOf_def split: if_splits)
  have "?k < length s"
    using mem takeWhile_shorter[of c "rev s"] by auto
  then have "d + 1 = length s - ?k" using d by simp
  then have "drop (d + 1) s = rev (take ?k (rev s))"
    by (simp add: rev_take)
  then show ?thesis by (simp add: takeWhile_eq_take[symmetric])
qed

lemma lastIndexOf_None: "lastIndexOf s c = None \<longleftrightarrow> c \<notin> set s"
  by (simp add: lastIndexOf_def)

section \<open>Target classifier: extension and candidates\<close>

lemma extractExt_eq: "extractExtFromTarget tgt = extensionOf tgt"
proof -
  let ?t = "trim (takeWhile (\<lambda>c. c \<noteq> CHR ''#'' \<and> c \<noteq> CHR ''?'') tgt)"
  let ?seg = "rev (takeWhile (\<lambda>c. c \<noteq> CHR ''/'') (rev ?t))"
  have t: "trim (hd (split (CHR ''?'') (hd (split (CHR ''#'') tgt)))) = ?t"
    by (simp add: hd_split takeWhile_takeWhile)
  show ?thesis
  proof (cases "?t = []")
    case True
    then show ?thesis
      by (simp add: extractExtFromTarget_def extensionOf_def t)
  next
    case False
    show ?thesis
    proof (cases "lastIndexOf ?seg (CHR ''.'')")
      case None
      then have "CHR ''.'' \<notin> set ?seg" by (metis lastIndexOf_None)
      then show ?thesis using False None
        by (simp add: extractExtFromTarget_def extensionOf_def t last_split Let_def)
    next
      case (Some d)
      then have "CHR ''.'' \<in> set ?seg"
        using lastIndexOf_None[of ?seg "CHR ''.''"] by auto
      moreover have "drop (d + 1) ?seg = rev (takeWhile (\<lambda>x. x \<noteq> CHR ''.'') (rev ?seg))"
        using lastIndexOf_drop[OF Some] .
      ultimately show ?thesis using False Some
        by (simp add: extractExtFromTarget_def extensionOf_def t last_split Let_def
            sliceFrom_def toLowerCase_def)
    qed
  qed
qed

text \<open>
  C5. The classifier answers false when the target has no extension, when the extension
  is \<open>md\<close>, and when the extension is not in the configured set, and true otherwise; the
  extension it extracts is the lower-cased text after the last dot of the last path
  segment, fragment and query stripped.
\<close>

theorem isAttachmentCandidate_classifies:
  "extractExtFromTarget tgt = extensionOf tgt
   \<and> isAttachmentCandidate mt tgt =
       (case extensionOf tgt of
          None \<Rightarrow> False
        | Some ext \<Rightarrow> ext \<noteq> ''md'' \<and> includeEXT mt ext)"
  by (auto simp: isAttachmentCandidate_def extractExt_eq split: option.splits)

theorem isAttachmentCandidate_classifies_witness:
  "extractExtFromTarget ''img/photo.PNG#x'' = Some ''png''
   \<and> isAttachmentCandidate sampleMime ''img/photo.PNG#x''
   \<and> \<not> isAttachmentCandidate sampleMime ''notes/plan.md''
   \<and> \<not> isAttachmentCandidate sampleMime ''notes/plan''
   \<and> \<not> isAttachmentCandidate sampleMime ''notes/plan.txt''"
proof -
  have e: "extensionOf ''img/photo.PNG#x'' = Some ''png''"
    "extensionOf ''notes/plan.md'' = Some ''md''"
    "extensionOf ''notes/plan'' = None"
    "extensionOf ''notes/plan.txt'' = Some ''txt''"
    by code_simp+
  have i: "includeEXT sampleMime ''png''" "\<not> includeEXT sampleMime ''txt''"
    by code_simp+
  show ?thesis
    using isAttachmentCandidate_classifies[of "''img/photo.PNG#x''" sampleMime]
      isAttachmentCandidate_classifies[of "''notes/plan.md''" sampleMime]
      isAttachmentCandidate_classifies[of "''notes/plan''" sampleMime]
      isAttachmentCandidate_classifies[of "''notes/plan.txt''" sampleMime] e i
    by simp
qed

lemma candidate_nonblank:
  assumes c: "isAttachmentCandidate mt tgt"
  shows "tgt \<noteq> [] \<and> trim tgt \<noteq> []"
proof -
  let ?p = "takeWhile (\<lambda>c. c \<noteq> CHR ''#'' \<and> c \<noteq> CHR ''?'') tgt"
  from c have "extensionOf tgt \<noteq> None"
    by (auto simp: isAttachmentCandidate_def extractExt_eq split: option.splits)
  then have "trim ?p \<noteq> []"
    by (auto simp: extensionOf_def Let_def split: if_splits)
  then obtain c where "c \<in> set ?p" "\<not> isWhiteSpace c"
    by (auto simp: trim_empty_iff)
  then have "c \<in> set tgt" by (auto dest: set_takeWhileD)
  with \<open>\<not> isWhiteSpace c\<close> show ?thesis by (auto simp: trim_empty_iff)
qed


section \<open>Patch applier: span safety\<close>

lemma sorted_wrt_irrefl_distinct:
  "\<forall>r\<in>set xs. \<not> P r r \<Longrightarrow> sorted_wrt P xs \<Longrightarrow> distinct xs"
  by (induction xs) auto

lemma sorted_wrt_sym_pairs:
  "sorted_wrt P xs \<Longrightarrow> x \<in> set xs \<Longrightarrow> y \<in> set xs \<Longrightarrow> x \<noteq> y \<Longrightarrow> P x y \<or> P y x"
  by (induction xs) auto

lemma pairs_sorted_wrt:
  "distinct ys \<Longrightarrow> (\<forall>x\<in>set ys. \<forall>y\<in>set ys. x \<noteq> y \<longrightarrow> Q x y) \<Longrightarrow> sorted_wrt Q ys"
  by (induction ys) auto

lemma sorted_wrt_conj:
  "sorted_wrt P xs \<Longrightarrow> sorted_wrt Q xs \<Longrightarrow> sorted_wrt (\<lambda>a b. P a b \<and> Q a b) xs"
  by (induction xs) auto

lemma ascChain_Cons:
  "ascChain lo hi (r # rs) \<longleftrightarrow>
     lo \<le> start r \<and> start r < end' r \<and> end' r \<le> hi \<and> ascChain (end' r) hi rs"
  by (auto simp: ascChain_def)

lemma foldl_rev_splice:
  "ascChain lo (length content) rs \<Longrightarrow>
     foldl applyOne content (rev rs) = take lo content @ splice content lo rs"
proof (induction rs arbitrary: lo)
  case Nil
  then show ?case by simp
next
  case (Cons r rs)
  from Cons.prems have b: "lo \<le> start r" "start r < end' r" "end' r \<le> length content"
    and ch: "ascChain (end' r) (length content) rs"
    by (simp_all add: ascChain_Cons)
  let ?S = "splice content (end' r) rs"
  have X: "foldl applyOne content (rev rs) = take (end' r) content @ ?S"
    using Cons.IH[OF ch] .
  have t: "take (start r) (take (end' r) content @ ?S) = take (start r) content"
    using b by (simp add: min_def)
  have d: "drop (end' r) (take (end' r) content @ ?S) = ?S"
    using b by simp
  have p: "take lo content @ take (start r - lo) (drop lo content) = take (start r) content"
    using b take_add[of lo "start r - lo" content] by simp
  have "foldl applyOne content (rev (r # rs)) = applyOne (take (end' r) content @ ?S) r"
    by (simp add: X)
  also have "\<dots> = take (start r) content @ newText r @ ?S"
    unfolding applyOne_def slice_def sliceFrom_def using t d by simp
  also have "\<dots> = (take lo content @ take (start r - lo) (drop lo content)) @ newText r @ ?S"
    by (simp only: p)
  also have "\<dots> = take lo content @ splice content lo (r # rs)"
    by simp
  finally show ?case .
qed

lemma length_splice:
  "ascChain lo (length content) rs \<Longrightarrow> lo \<le> length content \<Longrightarrow>
     int (length (splice content lo rs)) = int (length content) - int lo + sizeChange rs"
proof (induction rs arbitrary: lo)
  case Nil
  then show ?case by (simp add: sizeChange_def of_nat_diff)
next
  case (Cons r rs)
  from Cons.prems(1) have b: "lo \<le> start r" "start r < end' r" "end' r \<le> length content"
    and ch: "ascChain (end' r) (length content) rs"
    by (simp_all add: ascChain_Cons)
  have ih: "int (length (splice content (end' r) rs))
          = int (length content) - int (end' r) + sizeChange rs"
    using Cons.IH[OF ch b(3)] .
  have g: "length (take (start r - lo) (drop lo content)) = start r - lo"
    using b by simp
  have l: "length (splice content lo (r # rs))
        = (start r - lo) + length (newText r) + length (splice content (end' r) rs)"
    by (simp only: splice.simps length_append g)
  have sc: "sizeChange (r # rs)
        = int (length (newText r)) - (int (end' r) - int (start r)) + sizeChange rs"
    by (simp add: sizeChange_def)
  have "int (start r - lo) = int (start r) - int lo"
    using b by (simp add: of_nat_diff)
  then show ?case using ih sc l by simp
qed

lemma filter_key_single:
  "distinct (map f xs) \<Longrightarrow> k \<in> set xs \<Longrightarrow> filter (\<lambda>x. f k = f x) xs = [k]"
proof (induction xs)
  case Nil
  then show ?case by simp
next
  case (Cons a xs)
  show ?case
  proof (cases "a = k")
    case True
    then have "\<forall>x\<in>set xs. f k \<noteq> f x" using Cons.prems by auto
    then have "filter (\<lambda>x. f k = f x) xs = []" by (simp add: filter_empty_conv)
    then show ?thesis using True by simp
  next
    case False
    then have "k \<in> set xs" using Cons.prems by simp
    moreover have "f k \<noteq> f a"
    proof
      assume "f k = f a"
      then have "f a \<in> f ` set xs" using \<open>k \<in> set xs\<close> by (metis imageI)
      then show False using Cons.prems by simp
    qed
    ultimately show ?thesis using Cons by simp
  qed
qed

lemma sortDescending_chain:
  assumes w: "spansWithin content reps" and d: "disjointSpans reps"
  shows "ascChain 0 (length content) (rev (sortDescending reps))"
    and "distinct (map start reps)"
proof -
  let ?ds = "sortDescending reps"
  let ?D = "\<lambda>a b::Replacement. end' a \<le> start b \<or> end' b \<le> start a"
  have inb: "\<forall>r\<in>set reps. start r < end' r \<and> end' r \<le> length content"
    using w by (simp add: spansWithin_def list_all_iff)
  have irr: "\<forall>r\<in>set reps. \<not> ?D r r" using inb by auto
  have dist: "distinct reps"
    using sorted_wrt_irrefl_distinct[of reps ?D] irr d by (simp add: disjointSpans_def)
  have pairs: "\<forall>x\<in>set reps. \<forall>y\<in>set reps. x \<noteq> y \<longrightarrow> ?D x y"
    using sorted_wrt_sym_pairs[of ?D reps] d by (auto simp: disjointSpans_def)
  have inj: "\<forall>x\<in>set reps. \<forall>y\<in>set reps. start x = start y \<longrightarrow> x = y"
  proof (intro ballI impI)
    fix x y assume "x \<in> set reps" "y \<in> set reps" "start x = start y"
    note this
    show "x = y"
    proof (rule ccontr)
      assume "x \<noteq> y"
      then have "?D x y" using pairs \<open>x \<in> set reps\<close> \<open>y \<in> set reps\<close> by blast
      moreover have "start x < end' x" "start y < end' y"
        using inb \<open>x \<in> set reps\<close> \<open>y \<in> set reps\<close> by auto
      ultimately show False using \<open>start x = start y\<close> by linarith
    qed
  qed
  then have "inj_on start (set reps)" by (auto simp: inj_on_def)
  then show "distinct (map start reps)" using dist by (simp add: distinct_map)
  have set_ds: "set ?ds = set reps" by (simp add: sortDescending_def)
  have dist_ds: "distinct ?ds" using dist by (simp add: sortDescending_def)
  have "sorted (map (\<lambda>r. - int (start r)) ?ds)" by (simp add: sortDescending_def)
  then have ord: "sorted_wrt (\<lambda>a b. start b \<le> start a) ?ds"
    by (simp add: sorted_wrt_map)
  have dis: "sorted_wrt ?D ?ds"
    using pairs_sorted_wrt[OF dist_ds, of ?D] pairs set_ds by simp
  have "sorted_wrt (\<lambda>a b. start b \<le> start a \<and> ?D a b) ?ds"
    using sorted_wrt_conj[OF ord dis] .
  then have "sorted_wrt (\<lambda>a b. end' b \<le> start a) ?ds"
  proof (rule sorted_wrt_mono_rel[rotated])
    fix a b assume "a \<in> set ?ds" "b \<in> set ?ds" "start b \<le> start a \<and> ?D a b"
    then have "start b \<le> start a" "?D a b" "start a < end' a" "start b < end' b"
      using inb set_ds by auto
    then show "end' b \<le> start a" by linarith
  qed
  then have "sorted_wrt (\<lambda>a b. end' a \<le> start b) (rev ?ds)"
    by (simp add: sorted_wrt_rev)
  then show "ascChain 0 (length content) (rev ?ds)"
    using inb set_ds by (simp add: ascChain_def)
qed

lemma rev_sortDescending:
  assumes "distinct (map start reps)"
  shows "rev (sortDescending reps) = sort_key start reps"
proof -
  let ?ys = "rev (sortDescending reps)"
  have m: "mset ?ys = mset reps" by (simp add: sortDescending_def)
  have dy: "distinct (map start ?ys)"
    using assms by (simp add: distinct_map sortDescending_def)
  have "sorted (map (\<lambda>r. - int (start r)) (sortDescending reps))"
    by (simp add: sortDescending_def)
  then have "sorted_wrt (\<lambda>a b. start b \<le> start a) (sortDescending reps)"
    by (simp add: sorted_wrt_map)
  then have s: "sorted (map start ?ys)"
    by (simp add: sorted_wrt_map sorted_wrt_rev)
  have f: "filter (\<lambda>x. start k = start x) ?ys = filter (\<lambda>x. start k = start x) reps"
    if k: "k \<in> set ?ys" for k
  proof -
    have "k \<in> set reps" using k by (simp add: sortDescending_def)
    then show ?thesis
      using filter_key_single[OF dy k] filter_key_single[OF assms] by simp
  qed
  show ?thesis using properties_for_sort_key[OF m f s] by simp
qed

lemma sizeChange_perm:
  assumes "mset xs = mset ys"
  shows "sizeChange xs = sizeChange ys"
proof -
  let ?f = "\<lambda>r::Replacement. int (length (newText r)) - (int (end' r) - int (start r))"
  have "image_mset ?f (mset xs) = image_mset ?f (mset ys)" using assms by simp
  then have "mset (map ?f xs) = mset (map ?f ys)" by simp
  then have "sum_mset (mset (map ?f xs)) = sum_mset (mset (map ?f ys))" by (rule arg_cong)
  then show ?thesis unfolding sizeChange_def by (simp only: sum_mset_sum_list)
qed

lemma shiftBefore_Cons:
  "shiftBefore (r # rs) p =
     (if end' r \<le> p then int (length (newText r)) - (int (end' r) - int (start r)) else 0)
     + shiftBefore rs p"
  by (simp add: shiftBefore_def sizeChange_def)

lemma shiftBefore_zero:
  "ascChain lo hi rs \<Longrightarrow> p \<le> lo \<Longrightarrow> shiftBefore rs p = 0"
proof (induction rs arbitrary: lo)
  case Nil
  then show ?case by (simp add: shiftBefore_def sizeChange_def)
next
  case (Cons r rs)
  from Cons.prems(1) have b: "lo \<le> start r" "start r < end' r"
    and ch: "ascChain (end' r) hi rs"
    by (simp_all add: ascChain_Cons)
  have "shiftBefore rs p = 0" using Cons.IH[OF ch] b Cons.prems(2) by simp
  then show ?case using b Cons.prems(2) by (simp add: shiftBefore_Cons)
qed

lemma shiftBefore_lower:
  "ascChain lo hi rs \<Longrightarrow> lo \<le> p \<Longrightarrow> 0 \<le> int p - int lo + shiftBefore rs p"
proof (induction rs arbitrary: lo)
  case Nil
  then show ?case by (simp add: shiftBefore_def sizeChange_def)
next
  case (Cons r rs)
  from Cons.prems(1) have b: "lo \<le> start r" "start r < end' r"
    and ch: "ascChain (end' r) hi rs"
    by (simp_all add: ascChain_Cons)
  show ?case
  proof (cases "end' r \<le> p")
    case True
    have "0 \<le> int p - int (end' r) + shiftBefore rs p" using Cons.IH[OF ch True] .
    then show ?thesis using True b by (simp add: shiftBefore_Cons)
  next
    case False
    then have "shiftBefore rs p = 0" using shiftBefore_zero[OF ch, of p] by simp
    then show ?thesis using False Cons.prems(2) by (simp add: shiftBefore_Cons)
  qed
qed

lemma splice_outside:
  "ascChain lo (length content) rs \<Longrightarrow> lo \<le> p \<Longrightarrow> p < length content
     \<Longrightarrow> outsideSpans rs p
     \<Longrightarrow> splice content lo rs ! nat (int p - int lo + shiftBefore rs p) = content ! p"
proof (induction rs arbitrary: lo)
  case Nil
  have "shiftBefore [] p = 0" by (simp add: shiftBefore_def sizeChange_def)
  moreover have "lo + (p - lo) = p" using Nil.prems(2) by simp
  moreover have "nat (int p - int lo) = p - lo" by (simp add: nat_diff_distrib')
  moreover have "drop lo content ! (p - lo) = content ! (lo + (p - lo))"
    using Nil.prems(2,3) by (intro nth_drop) simp
  ultimately show ?case by simp
next
  case (Cons r rs)
  from Cons.prems(1) have b: "lo \<le> start r" "start r < end' r" "end' r \<le> length content"
    and ch: "ascChain (end' r) (length content) rs"
    by (simp_all add: ascChain_Cons)
  let ?A = "take (start r - lo) (drop lo content)"
  have lA: "length ?A = start r - lo" using b by simp
  from Cons.prems(4) have o: "p < start r \<or> end' r \<le> p" and os: "outsideSpans rs p"
    by (simp_all add: outsideSpans_def)
  show ?case
  proof (cases "p < start r")
    case True
    then have z: "shiftBefore rs p = 0" using shiftBefore_zero[OF ch, of p] b by simp
    have i: "nat (int p - int lo + shiftBefore (r # rs) p) = p - lo"
      using True b z Cons.prems(2) by (simp add: shiftBefore_Cons)
    have "p - lo < length ?A" using lA True Cons.prems(2) by simp
    then have "splice content lo (r # rs) ! (p - lo) = ?A ! (p - lo)"
      by (simp add: nth_append)
    also have "\<dots> = content ! p" using True Cons.prems(2,3) by simp
    finally show ?thesis using i by simp
  next
    case False
    then have e: "end' r \<le> p" using o by simp
    let ?j = "nat (int p - int (end' r) + shiftBefore rs p)"
    have nn: "0 \<le> int p - int (end' r) + shiftBefore rs p"
      using shiftBefore_lower[OF ch e] .
    have i: "nat (int p - int lo + shiftBefore (r # rs) p)
               = length ?A + length (newText r) + ?j"
      using e b nn lA by (simp add: shiftBefore_Cons nat_add_distrib)
    have "splice content lo (r # rs) ! (length ?A + length (newText r) + ?j)
            = splice content (end' r) rs ! ?j"
      by (simp add: nth_append del: length_take length_drop)
    also have "\<dots> = content ! p" using Cons.IH[OF ch e Cons.prems(3) os] .
    finally show ?thesis using i by simp
  qed
qed

lemma splice_span:
  "ascChain lo (length content) rs \<Longrightarrow> r \<in> set rs
     \<Longrightarrow> take (length (newText r))
           (drop (nat (int (start r) - int lo + shiftBefore rs (start r)))
              (splice content lo rs)) = newText r"
proof (induction rs arbitrary: lo)
  case Nil
  then show ?case by simp
next
  case (Cons a rs)
  from Cons.prems(1) have b: "lo \<le> start a" "start a < end' a" "end' a \<le> length content"
    and ch: "ascChain (end' a) (length content) rs"
    and nx: "\<forall>x\<in>set rs. end' a \<le> start x"
    by (auto simp: ascChain_Cons ascChain_def)
  let ?A = "take (start a - lo) (drop lo content)"
  have lA: "length ?A = start a - lo" using b by simp
  show ?case
  proof (cases "r = a")
    case True
    have z: "shiftBefore rs (start a) = 0" using shiftBefore_zero[OF ch, of "start a"] b by simp
    have i: "nat (int (start r) - int lo + shiftBefore (a # rs) (start r)) = length ?A"
      using True b z lA by (simp add: shiftBefore_Cons)
    have "drop (length ?A) (splice content lo (a # rs)) = newText a @ splice content (end' a) rs"
      by (simp del: length_take length_drop)
    then show ?thesis using i True by simp
  next
    case False
    then have m: "r \<in> set rs" using Cons.prems(2) by simp
    then have e: "end' a \<le> start r" using nx by simp
    let ?j = "nat (int (start r) - int (end' a) + shiftBefore rs (start r))"
    have nn: "0 \<le> int (start r) - int (end' a) + shiftBefore rs (start r)"
      using shiftBefore_lower[OF ch e] .
    have i: "nat (int (start r) - int lo + shiftBefore (a # rs) (start r))
               = length ?A + length (newText a) + ?j"
      using e b nn lA by (simp add: shiftBefore_Cons nat_add_distrib)
    have "drop (length ?A + length (newText a) + ?j) (splice content lo (a # rs))
            = drop ?j (splice content (end' a) rs)"
      by (simp del: length_take length_drop)
    then show ?thesis using i Cons.IH[OF ch m] by simp
  qed
qed

lemma shiftBefore_sort: "shiftBefore (sort_key start reps) p = shiftBefore reps p"
  unfolding shiftBefore_def
  by (rule sizeChange_perm) simp

lemma outsideSpans_sort: "outsideSpans (sort_key start reps) p = outsideSpans reps p"
  by (simp add: outsideSpans_def list_all_iff)

text \<open>
  C1. For a text and a list of spans in any order, each a non-empty range of the text and
  no two overlapping, applying the replacements in descending order of start gives the text
  in which every span is replaced by its new text and everything between the spans is
  copied unchanged. Its length is the original length plus the sum, over the spans, of the
  length of the new text minus the length of the span; the character at a position outside
  all spans is found unchanged, moved by the size change of the spans before it; and at the
  moved start of each span stands its new text.
\<close>

theorem patch_span_safety:
  assumes "spansWithin content reps" and "disjointSpans reps"
  shows "applyReplacements content reps = splice content 0 (sort_key start reps)
       \<and> int (length (applyReplacements content reps)) = int (length content) + sizeChange reps
       \<and> (\<forall>p<length content. outsideSpans reps p \<longrightarrow>
             applyReplacements content reps ! nat (int p + shiftBefore reps p) = content ! p)
       \<and> (\<forall>r\<in>set reps.
             slice (applyReplacements content reps)
               (nat (int (start r) + shiftBefore reps (start r)))
               (nat (int (start r) + shiftBefore reps (start r)) + length (newText r))
             = newText r)"
proof -
  let ?as = "rev (sortDescending reps)"
  have ch: "ascChain 0 (length content) ?as" and ds: "distinct (map start reps)"
    using sortDescending_chain[OF assms] by simp_all
  have eq: "?as = sort_key start reps" using rev_sortDescending[OF ds] .
  have "applyReplacements content reps = foldl applyOne content (rev ?as)"
    by (simp add: applyReplacements_def)
  also have "\<dots> = splice content 0 ?as" using foldl_rev_splice[OF ch] by simp
  finally have r: "applyReplacements content reps = splice content 0 (sort_key start reps)"
    using eq by simp
  have "int (length (splice content 0 ?as)) = int (length content) + sizeChange ?as"
    using length_splice[OF ch] by simp
  moreover have "sizeChange ?as = sizeChange reps"
    by (rule sizeChange_perm) (simp add: sortDescending_def)
  ultimately have l: "int (length (applyReplacements content reps))
      = int (length content) + sizeChange reps"
    using r eq by simp
  have ch': "ascChain 0 (length content) (sort_key start reps)" using ch eq by simp
  have o: "applyReplacements content reps ! nat (int p + shiftBefore reps p) = content ! p"
    if "p < length content" "outsideSpans reps p" for p
    using splice_outside[OF ch', of p] that r
    by (simp add: shiftBefore_sort outsideSpans_sort)
  have n: "slice (applyReplacements content reps)
               (nat (int (start q) + shiftBefore reps (start q)))
               (nat (int (start q) + shiftBefore reps (start q)) + length (newText q))
             = newText q"
    if "q \<in> set reps" for q
    using splice_span[OF ch', of q] that r
    by (simp add: shiftBefore_sort slice_def)
  show ?thesis using r l o n by blast
qed

theorem patch_span_safety_witness:
  "spansWithin ''abcdef'' [\<lparr>start = 3, end' = 5, newText = []\<rparr>, \<lparr>start = 1, end' = 2, newText = ''XY''\<rparr>]
   \<and> disjointSpans [\<lparr>start = 3, end' = 5, newText = []\<rparr>, \<lparr>start = 1, end' = 2, newText = ''XY''\<rparr>]
   \<and> applyReplacements ''abcdef'' [\<lparr>start = 3, end' = 5, newText = []\<rparr>, \<lparr>start = 1, end' = 2, newText = ''XY''\<rparr>] = ''aXYcf''
   \<and> int (length ''aXYcf'') = int (length ''abcdef'') + ((0 - 2) + (2 - 1))
   \<and> outsideSpans [\<lparr>start = 3, end' = 5, newText = []\<rparr>, \<lparr>start = 1, end' = 2, newText = ''XY''\<rparr>] 5
   \<and> ''aXYcf'' ! 4 = ''abcdef'' ! 5
   \<and> slice ''aXYcf'' 1 3 = ''XY''"
proof -
  let ?reps = "[\<lparr>start = 3, end' = 5, newText = []\<rparr>, \<lparr>start = 1, end' = 2, newText = ''XY''\<rparr>]"
  have h1: "spansWithin ''abcdef'' ?reps" by (simp add: spansWithin_def)
  have h2: "disjointSpans ?reps" by (simp add: disjointSpans_def)
  have e: "splice ''abcdef'' 0 (sort_key start ?reps) = ''aXYcf''" by simp
  have h3: "outsideSpans ?reps 5" "(5::nat) < length ''abcdef''"
    by (simp_all add: outsideSpans_def)
  have h4: "\<lparr>start = 1, end' = 2, newText = ''XY''\<rparr> \<in> set ?reps" by simp
  have s: "shiftBefore ?reps 5 = - 1" "shiftBefore ?reps 1 = 0"
    by (simp_all add: shiftBefore_def sizeChange_def)
  show ?thesis using patch_span_safety[OF h1 h2] h1 h2 e h3 s by (simp add: slice_def)
qed

section \<open>Reference scanner: spans\<close>

lemma startsWith_length: "startsWith s p \<Longrightarrow> length p \<le> length s"
  unfolding startsWith_def by (metis length_take min.cobounded1)

lemma wikiBody_length: "wikiBody s = Some (g, n) \<Longrightarrow> 5 \<le> n \<and> n \<le> length s"
proof -
  assume a: "wikiBody s = Some (g, n)"
  let ?inner = "takeWhile (\<lambda>c. c \<noteq> CHR '']'') (drop 2 s)"
  from a have i: "?inner \<noteq> []" and e: "startsWith (drop (2 + length ?inner) s) '']]''"
    and n: "n = 2 + length ?inner + 2"
    by (auto simp: wikiBody_def Let_def split: if_splits)
  have "2 \<le> length (drop (2 + length ?inner) s)" using startsWith_length[OF e] by simp
  moreover have "1 \<le> length ?inner" using i by (cases ?inner) auto
  ultimately show ?thesis using n by simp
qed

lemma mdBody_length: "mdBody s = Some (g, n) \<Longrightarrow> 5 \<le> n \<and> n \<le> length s"
proof -
  assume a: "mdBody s = Some (g, n)"
  let ?alt = "takeWhile (\<lambda>c. c \<noteq> CHR '']'') (drop 1 s)"
  let ?r = "drop (1 + length ?alt) s"
  let ?dest = "takeWhile (\<lambda>c. c \<noteq> CHR '')'') (drop 2 ?r)"
  from a have d: "?dest \<noteq> []" and e: "startsWith (drop (2 + length ?dest) ?r) '')''"
    and n: "n = 1 + length ?alt + 2 + length ?dest + 1"
    by (auto simp: mdBody_def Let_def split: if_splits)
  have "1 \<le> length (drop (2 + length ?dest) ?r)" using startsWith_length[OF e] by simp
  moreover have "1 \<le> length ?dest" using d by (cases ?dest) auto
  ultimately show ?thesis using n by simp
qed

lemma matchers_nonempty:
  "matchObsidianEmbed content i = Some (g, n) \<Longrightarrow> 0 < n \<and> i + n \<le> length content"
  "matchObsidianLink content i = Some (g, n) \<Longrightarrow> 0 < n \<and> i + n \<le> length content"
  "matchMdEmbed content i = Some (h, n) \<Longrightarrow> 0 < n \<and> i + n \<le> length content"
  "matchMdLink content i = Some (h, n) \<Longrightarrow> 0 < n \<and> i + n \<le> length content"
proof -
  show "matchObsidianEmbed content i = Some (g, n) \<Longrightarrow> 0 < n \<and> i + n \<le> length content"
    by (auto simp: matchObsidianEmbed_def split: if_splits dest!: wikiBody_length)
  show "matchObsidianLink content i = Some (g, n) \<Longrightarrow> 0 < n \<and> i + n \<le> length content"
    by (auto simp: matchObsidianLink_def split: if_splits dest!: wikiBody_length)
  show "matchMdEmbed content i = Some (h, n) \<Longrightarrow> 0 < n \<and> i + n \<le> length content"
    by (auto simp: matchMdEmbed_def split: if_splits dest!: mdBody_length)
  show "matchMdLink content i = Some (h, n) \<Longrightarrow> 0 < n \<and> i + n \<le> length content"
    by (auto simp: matchMdLink_def split: if_splits dest!: mdBody_length)
qed

lemma execAll_within:
  assumes "\<And>j g n. m content j = Some (g, n) \<Longrightarrow> j + n \<le> length content"
  shows "\<forall>x\<in>set (execAll m content i). fst x + fst (snd x) \<le> length content"
  using assms
proof (induction m content i rule: execAll.induct)
  case (1 m content i)
  show ?case
  proof (cases "length content < i")
    case True
    then show ?thesis by (subst execAll.simps) simp
  next
    case inb: False
    show ?thesis
    proof (cases "m content i")
      case None
      have e: "execAll m content i = execAll m content (i + 1)"
        using inb None by (subst execAll.simps) simp
      show ?thesis using "1.IH"(1)[OF inb None "1.prems"] e by simp
    next
      case (Some gn)
      obtain g n where gn: "gn = (g, n)" by (cases gn)
      show ?thesis
      proof (cases "n = 0")
        case True
        then have "execAll m content i = []"
          using inb Some gn by (subst execAll.simps) simp
        then show ?thesis by simp
      next
        case False
        have e: "execAll m content i = (i, n, g) # execAll m content (i + n)"
          using inb Some gn False by (subst execAll.simps) simp
        have "i + n \<le> length content" using "1.prems"[of i g n] Some gn by simp
        then show ?thesis using "1.IH"(2)[OF inb Some gn[symmetric] False "1.prems"] e by simp
      qed
    qed
  qed
qed

lemma execAll_chain:
  "sorted_wrt (\<lambda>a b. fst a + fst (snd a) \<le> fst b) (execAll m content i)
   \<and> (\<forall>x\<in>set (execAll m content i). i \<le> fst x \<and> 0 < fst (snd x))"
proof (induction m content i rule: execAll.induct)
  case (1 m content i)
  show ?case
  proof (cases "length content < i")
    case True
    then show ?thesis by (subst execAll.simps, subst (2) execAll.simps) simp
  next
    case inb: False
    show ?thesis
    proof (cases "m content i")
      case None
      have e: "execAll m content i = execAll m content (i + 1)"
        using inb None by (subst execAll.simps) simp
      show ?thesis using "1.IH"(1)[OF inb None] e by auto
    next
      case (Some gn)
      obtain g n where gn: "gn = (g, n)" by (cases gn)
      show ?thesis
      proof (cases "n = 0")
        case True
        then have "execAll m content i = []"
          using inb Some gn by (subst execAll.simps) simp
        then show ?thesis by simp
      next
        case False
        have e: "execAll m content i = (i, n, g) # execAll m content (i + n)"
          using inb Some gn False by (subst execAll.simps) simp
        have ih: "sorted_wrt (\<lambda>a b. fst a + fst (snd a) \<le> fst b) (execAll m content (i + n))
          \<and> (\<forall>x\<in>set (execAll m content (i + n)). i + n \<le> fst x \<and> 0 < fst (snd x))"
          using "1.IH"(2)[OF inb Some gn[symmetric] False] .
        show ?thesis using ih False by (auto simp: e)
      qed
    qed
  qed
qed

lemma obsidianRef_span [simp]:
  "start (obsidianRef k content (i, n, g)) = i"
  "end' (obsidianRef k content (i, n, g)) = i + n"
  "kind (obsidianRef k content (i, n, g)) = k"
  by (simp_all add: obsidianRef_def Let_def)

lemma mdRef_span [simp]:
  "start (mdRef k content (i, n, g)) = i"
  "end' (mdRef k content (i, n, g)) = i + n"
  "kind (mdRef k content (i, n, g)) = k"
  by (cases g; simp add: mdRef_def Let_def)+

lemma ref_end:
  "end' (obsidianRef k content x) = fst x + fst (snd x)"
  "end' (mdRef k content y) = fst y + fst (snd y)"
  by (simp_all add: obsidianRef_def mdRef_def Let_def split: prod.splits)

lemma spanChain_map:
  assumes "\<And>i n g. start (f (i, n, g)) = i \<and> end' (f (i, n, g)) = i + n \<and> kind (f (i, n, g)) = k"
  shows "spanChain k (map f (execAll m content 0))"
proof -
  let ?ms = "execAll m content 0"
  have c: "sorted_wrt (\<lambda>a b. fst a + fst (snd a) \<le> fst b) ?ms"
    and p: "\<forall>x\<in>set ?ms. 0 < fst (snd x)"
    using execAll_chain[of m content 0] by auto
  have s: "start (f x) = fst x \<and> end' (f x) = fst x + fst (snd x) \<and> kind (f x) = k" for x
    using assms[of "fst x" "fst (snd x)" "snd (snd x)"] by simp
  have "sorted_wrt (\<lambda>a b. end' (f a) \<le> start (f b)) ?ms"
    using c by (simp add: s)
  then have "sorted_wrt (\<lambda>a b. end' a \<le> start b) (map f ?ms)"
    by (simp add: sorted_wrt_map)
  moreover have "\<forall>r\<in>set (map f ?ms). kind r = k \<and> start r < end' r"
    using p s by auto
  ultimately show ?thesis by (simp add: spanChain_def)
qed

lemma spanChain_sorted: "spanChain k rs \<Longrightarrow> sorted (map start rs)"
proof -
  assume a: "spanChain k rs"
  then have "sorted_wrt (\<lambda>a b. end' a \<le> start b) rs" by (simp add: spanChain_def)
  then have "sorted_wrt (\<lambda>a b. start a \<le> start b) rs"
  proof (rule sorted_wrt_mono_rel[rotated])
    fix x y assume "x \<in> set rs" "y \<in> set rs" "end' x \<le> start y"
    moreover have "start x < end' x" using a \<open>x \<in> set rs\<close> by (simp add: spanChain_def)
    ultimately show "start x \<le> start y" by simp
  qed
  then show ?thesis by (simp add: sorted_wrt_map)
qed

lemma spanChain_filter:
  "spanChain k rs \<Longrightarrow> filter (ofKind j) rs = (if j = k then rs else [])"
  by (auto simp: spanChain_def ofKind_def filter_empty_conv)

lemma spanChain_disjoint: "spanChain k rs \<Longrightarrow> disjointSpans rs"
  unfolding spanChain_def disjointSpans_def
  by (auto elim: sorted_wrt_mono_rel[rotated])

lemma disjointSpans_Nil: "disjointSpans []"
  by (simp add: disjointSpans_def)

text \<open>
  What every scan keeps: the references are sorted in ascending order of start, every span
  is a non-empty range of the text, and two matches of the same pattern never overlap.
\<close>

lemma scan_sorted_kindwise:
  "sorted (map start (extractAttachmentRefs content))
   \<and> (\<forall>r\<in>set (extractAttachmentRefs content). start r < end' r \<and> end' r \<le> length content)
   \<and> disjointSpans (filter (ofKind k) (extractAttachmentRefs content))"
proof -
  let ?A = "map (obsidianRef ObsidianEmbed content) (execAll matchObsidianEmbed content 0)"
  let ?B = "map (obsidianRef ObsidianLink content) (execAll matchObsidianLink content 0)"
  let ?C = "map (mdRef MdEmbed content) (execAll matchMdEmbed content 0)"
  let ?D = "map (mdRef MdLink content) (execAll matchMdLink content 0)"
  have a: "spanChain ObsidianEmbed ?A" by (rule spanChain_map) simp
  have b: "spanChain ObsidianLink ?B" by (rule spanChain_map) simp
  have c: "spanChain MdEmbed ?C" by (rule spanChain_map) simp
  have d: "spanChain MdLink ?D" by (rule spanChain_map) simp
  have wa: "\<forall>x\<in>set (execAll matchObsidianEmbed content 0). fst x + fst (snd x) \<le> length content"
    by (rule execAll_within) (simp add: matchers_nonempty)
  have wb: "\<forall>x\<in>set (execAll matchObsidianLink content 0). fst x + fst (snd x) \<le> length content"
    by (rule execAll_within) (simp add: matchers_nonempty)
  have wc: "\<forall>x\<in>set (execAll matchMdEmbed content 0). fst x + fst (snd x) \<le> length content"
    by (rule execAll_within) (simp add: matchers_nonempty)
  have wd: "\<forall>x\<in>set (execAll matchMdLink content 0). fst x + fst (snd x) \<le> length content"
    by (rule execAll_within) (simp add: matchers_nonempty)
  have w: "\<forall>r\<in>set (?A @ ?B @ ?C @ ?D). end' r \<le> length content"
    using wa wb wc wd by (auto simp: ref_end)
  have 1: "sorted (map start (extractAttachmentRefs content))"
    by (simp add: extractAttachmentRefs_def)
  have 2: "\<forall>r\<in>set (extractAttachmentRefs content). start r < end' r \<and> end' r \<le> length content"
  proof
    fix r assume "r \<in> set (extractAttachmentRefs content)"
    then have m: "r \<in> set (?A @ ?B @ ?C @ ?D)" by (simp add: extractAttachmentRefs_def)
    then have "start r < end' r" using a b c d unfolding spanChain_def by auto
    then show "start r < end' r \<and> end' r \<le> length content" using w m by blast
  qed
  have f: "filter (ofKind k) (extractAttachmentRefs content)
         = sort_key start (filter (ofKind k) (?A @ ?B @ ?C @ ?D))"
    by (simp add: extractAttachmentRefs_def filter_sort)
  have "filter (ofKind k) (?A @ ?B @ ?C @ ?D)
         = (case k of ObsidianEmbed \<Rightarrow> ?A | ObsidianLink \<Rightarrow> ?B | MdEmbed \<Rightarrow> ?C | MdLink \<Rightarrow> ?D)"
    using spanChain_filter[OF a, of k] spanChain_filter[OF b, of k]
      spanChain_filter[OF c, of k] spanChain_filter[OF d, of k]
    by (cases k) simp_all
  moreover have "spanChain k (case k of ObsidianEmbed \<Rightarrow> ?A | ObsidianLink \<Rightarrow> ?B | MdEmbed \<Rightarrow> ?C | MdLink \<Rightarrow> ?D)"
    using a b c d by (cases k) simp_all
  ultimately obtain X where x: "filter (ofKind k) (?A @ ?B @ ?C @ ?D) = X" "spanChain k X"
    by simp
  have "sort_key start X = X"
    using spanChain_sorted[OF x(2)] by (rule sort_key_id_if_sorted)
  then have 3: "disjointSpans (filter (ofKind k) (extractAttachmentRefs content))"
    using f x spanChain_disjoint by simp
  show ?thesis using 1 2 3 by blast
qed

text \<open>
  C3. The spans of one scan are to be sorted by start and pairwise non-overlapping; the
  loop that patches a note applies the replacements from the end of the text to its start
  and depends on it. The order holds, the separation does not. The lookbehind of the link
  pattern keeps a link match from starting at the bracket that follows an exclamation
  mark, but not from starting at a second bracket inside the label of an image: in
  \<open>![[x](a.png)\<close> the image pattern matches the whole text, characters 0 to 12, and the
  link pattern matches it from its third character on, characters 2 to 12. Both references
  name \<open>a.png\<close>, both are rewritten, and the text that is written to the note has the tail
  of one URL left behind the other.
\<close>

theorem scan_spans_overlap:
  "map start (extractAttachmentRefs ''![[x](a.png)'') = [0, 2]
   \<and> map end' (extractAttachmentRefs ''![[x](a.png)'') = [12, 12]
   \<and> map kind (extractAttachmentRefs ''![[x](a.png)'') = [MdEmbed, MdLink]
   \<and> map target (extractAttachmentRefs ''![[x](a.png)'') = [''a.png'', ''a.png'']
   \<and> \<not> disjointSpans (extractAttachmentRefs ''![[x](a.png)'')
   \<and> linksRewritten (convertAttachments nestedEnv sampleOpts) = 2
   \<and> writtenTexts (trace (convertAttachments nestedEnv sampleOpts))
       = [''![[x](http://localhost:4998/a-4142.png)/localhost:4998/a-4142.png)'']"
  by code_simp

section \<open>Candidates have a target\<close>

text \<open>
  C10. A target that passes the candidate filter is neither empty nor white space only,
  so the orchestrator's guard on empty targets never fires on the filtered references.
\<close>

theorem candidate_target_not_empty:
  "(isAttachmentCandidate mt tgt \<longrightarrow> tgt \<noteq> [] \<and> trim tgt \<noteq> [] \<and> \<not> emptyTarget tgt)
   \<and> (\<forall>r\<in>set (candidateRefs mt content). \<not> emptyTarget (target r))"
  using candidate_nonblank by (auto simp: emptyTarget_def candidateRefs_def)

theorem candidate_target_not_empty_witness:
  "isAttachmentCandidate sampleMime ''img/photo.PNG''
   \<and> ''img/photo.PNG'' \<noteq> [] \<and> trim ''img/photo.PNG'' \<noteq> [] \<and> \<not> emptyTarget ''img/photo.PNG''
   \<and> candidateRefs sampleMime ''![[a.png]]'' \<noteq> []
   \<and> \<not> emptyTarget (target (hd (candidateRefs sampleMime ''![[a.png]]'')))"
proof -
  have c: "isAttachmentCandidate sampleMime ''img/photo.PNG''" by code_simp
  have n: "candidateRefs sampleMime ''![[a.png]]'' \<noteq> []" by code_simp
  then have "hd (candidateRefs sampleMime ''![[a.png]]'') \<in> set (candidateRefs sampleMime ''![[a.png]]'')"
    by simp
  then show ?thesis
    using candidate_target_not_empty[of sampleMime "''img/photo.PNG''" "''![[a.png]]''"] c n
    by blast
qed

section \<open>Object names of files with several dots\<close>

text \<open>
  C9. For a file name with two or more dots and a non-empty hash, the object name is the
  text before the first dot, a hyphen, the hash, a dot, and the segment between the first
  and the second dot; every later segment is dropped.
\<close>

theorem generateResourceName_multi_dot:
  assumes "2 \<le> count_list fileName (CHR ''.'')" and "hash \<noteq> []"
  shows "generateResourceName now fileName par (Some hash) =
           takeWhile (\<lambda>c. c \<noteq> CHR ''.'') fileName @ ''-'' @ hash @ ''.''
           @ takeWhile (\<lambda>c. c \<noteq> CHR ''.'') (tl (dropWhile (\<lambda>c. c \<noteq> CHR ''.'') fileName))"
proof -
  let ?rest = "tl (dropWhile (\<lambda>c. c \<noteq> CHR ''.'') fileName)"
  have "count_list fileName (CHR ''.'') \<noteq> 0" using assms(1) by simp
  then have mem: "CHR ''.'' \<in> set fileName" by (metis count_notin)
  obtain y ys where r: "split (CHR ''.'') ?rest = y # ys"
    using split_nonempty[of "CHR ''.''" ?rest] by (cases "split (CHR ''.'') ?rest") auto
  have y: "y = takeWhile (\<lambda>c. c \<noteq> CHR ''.'') ?rest"
    using hd_split[of "CHR ''.''" ?rest] r by simp
  have "split (CHR ''.'') fileName = takeWhile (\<lambda>c. c \<noteq> CHR ''.'') fileName # y # ys"
    using split_unfold[OF mem] r by simp
  then show ?thesis using assms(2) y
    by (simp add: generateResourceName_def nthOpt_def isTruthy_def interpolate_def)
qed

theorem generateResourceName_multi_dot_witness:
  "2 \<le> count_list ''archive.tar.gz'' (CHR ''.'') \<and> ''h'' \<noteq> []
   \<and> generateResourceName 0 ''archive.tar.gz'' None (Some ''h'') = ''archive-h.tar''"
proof -
  have h1: "2 \<le> count_list ''archive.tar.gz'' (CHR ''.'')" by simp
  have h2: "''h'' \<noteq> []" by simp
  show ?thesis using generateResourceName_multi_dot[OF h1 h2, of 0 None] h1 by simp
qed

section \<open>Replacement text of the plain-link method\<close>

text \<open>
  C6, as the code has it. When the method of the resolved file is neither \<open>iframe\<close> nor
  \<open>img\<close>, a markdown link or a wiki link becomes a markdown link whose label is the
  trimmed label of the reference when that is not empty, and the base name of the file
  otherwise; an embed becomes the bare URL. The captured suffix follows the URL in both.
\<close>

theorem buildReplacement_plain_link:
  assumes "getMethodForFile mt resolved \<noteq> ''iframe''"
    and "getMethodForFile mt resolved \<noteq> ''img''"
  shows "buildReplacement mt ref url resolved =
           (if kind ref = MdLink \<or> kind ref = ObsidianLink
            then ''['' @ (if trim (orEmpty (label ref)) \<noteq> [] then trim (orEmpty (label ref))
                         else basename resolved)
                 @ '']('' @ url @ orEmpty (suffix ref) @ '')''
            else url @ orEmpty (suffix ref))"
  using assms by (simp add: buildReplacement_def orElse_def Let_def)

theorem buildReplacement_plain_link_witness:
  "getMethodForFile sampleMime sampleFile \<noteq> ''iframe''
   \<and> getMethodForFile sampleMime sampleFile \<noteq> ''img''
   \<and> buildReplacement sampleMime
        \<lparr>start = 0, end' = 31, kind = ObsidianLink, raw = ''[[report.pdf#page=2|My Report]]'',
         target = ''report.pdf'', label = Some ''My Report'', suffix = None\<rparr>
        ''http://x/report-h.pdf'' sampleFile
       = ''[My Report](http://x/report-h.pdf)''"
proof -
  have h1: "getMethodForFile sampleMime sampleFile \<noteq> ''iframe''" by code_simp
  have h2: "getMethodForFile sampleMime sampleFile \<noteq> ''img''" by code_simp
  have t: "trim ''My Report'' = ''My Report''" by code_simp
  show ?thesis
    using buildReplacement_plain_link[OF h1 h2, of
        "\<lparr>start = 0, end' = 31, kind = ObsidianLink, raw = ''[[report.pdf#page=2|My Report]]'',
         target = ''report.pdf'', label = Some ''My Report'', suffix = None\<rparr>" "''http://x/report-h.pdf''"] h1 h2 t
    by (simp add: orEmpty_def)
qed

text \<open>
  The claim as it is written fails twice: an embed rendered with the plain-link method is
  not a markdown link, and the label of a link is written trimmed, not as it was.
\<close>

theorem buildReplacement_plain_link_counterexample:
  "buildReplacement sampleMime
      \<lparr>start = 0, end' = 15, kind = ObsidianEmbed, raw = ''![[report.pdf]]'',
       target = ''report.pdf'', label = None, suffix = None\<rparr>
      ''http://x/report-h.pdf'' sampleFile
     \<noteq> plainLinkAsSpecified
      \<lparr>start = 0, end' = 15, kind = ObsidianEmbed, raw = ''![[report.pdf]]'',
       target = ''report.pdf'', label = None, suffix = None\<rparr>
      ''http://x/report-h.pdf'' sampleFile
   \<and> buildReplacement sampleMime
      \<lparr>start = 0, end' = 25, kind = MdLink, raw = ''[ My Report ](report.pdf)'',
       target = ''report.pdf'', label = Some '' My Report '', suffix = None\<rparr>
      ''http://x/report-h.pdf'' sampleFile
     \<noteq> plainLinkAsSpecified
      \<lparr>start = 0, end' = 25, kind = MdLink, raw = ''[ My Report ](report.pdf)'',
       target = ''report.pdf'', label = Some '' My Report '', suffix = None\<rparr>
      ''http://x/report-h.pdf'' sampleFile"
  by code_simp

section \<open>Upload engine: the outcomes of one attempt\<close>

lemma buildTargetUrl_eq:
  "\<exists>u. buildTargetUrl env fileName mode st = (st\<lparr>trace := trace st @ map EvNotice (urlNotices env fileName mode)\<rparr>, u)"
  by (simp add: buildTargetUrl_def urlNotices_def emit_def)

lemma tryUpload_cases [case_names ReadFails DigestFails NoUrl ExistsFails Present DryAbsent UploadFails Uploaded]:
  fixes env opts resolved st
  defines "p \<equiv> path resolved"
  obtains
    (ReadFails) e where
      "tryUpload env opts resolved st =
         (st\<lparr>uploadsFailed := uploadsFailed st + 1,
             errors := errors st @ [uploadFailedMessage p e],
             trace := trace st @ [EvReadBinary p (Inl e)]\<rparr>, None)"
  | (DigestFails) e b where
      "tryUpload env opts resolved st =
         (st\<lparr>uploadsFailed := uploadsFailed st + 1,
             errors := errors st @ [uploadFailedMessage p e],
             trace := trace st @ [EvReadBinary p (Inr b), EvDigest p (Inl e)]\<rparr>, None)"
  | (NoUrl) b h ns where
      "tryUpload env opts resolved st =
         (st\<lparr>errors := errors st @ [noTargetUrlMessage p],
             trace := trace st @ [EvReadBinary p (Inr b), EvDigest p (Inr h)] @ map EvNotice ns\<rparr>,
          None)"
  | (ExistsFails) e b h ns n where
      "tryUpload env opts resolved st =
         (st\<lparr>uploadsFailed := uploadsFailed st + 1,
             errors := errors st @ [uploadFailedMessage p e],
             trace := trace st @ [EvReadBinary p (Inr b), EvDigest p (Inr h)] @ map EvNotice ns
                        @ [EvObjectExists p n (Inl e)]\<rparr>, None)"
  | (Present) b h ns n u where "u \<noteq> []"
      "tryUpload env opts resolved st =
         (st\<lparr>uploadsSkippedAlreadyExists := uploadsSkippedAlreadyExists st + 1,
             resolvedUrlByVaultPath := (resolvedUrlByVaultPath st)(p \<mapsto> u),
             trace := trace st @ [EvReadBinary p (Inr b), EvDigest p (Inr h)] @ map EvNotice ns
                        @ [EvObjectExists p n (Inr True)]\<rparr>, Some u)"
  | (DryAbsent) b h ns n u where "u \<noteq> []" "dryRun opts"
      "tryUpload env opts resolved st =
         (st\<lparr>uploadsAttempted := uploadsAttempted st + 1,
             resolvedUrlByVaultPath := (resolvedUrlByVaultPath st)(p \<mapsto> u),
             trace := trace st @ [EvReadBinary p (Inr b), EvDigest p (Inr h)] @ map EvNotice ns
                        @ [EvObjectExists p n (Inr False)]\<rparr>, Some u)"
  | (UploadFails) e b h ns n where "\<not> dryRun opts"
      "tryUpload env opts resolved st =
         (st\<lparr>uploadsAttempted := uploadsAttempted st + 1,
             uploadsFailed := uploadsFailed st + 1,
             errors := errors st @ [uploadFailedMessage p e],
             trace := trace st @ [EvReadBinary p (Inr b), EvDigest p (Inr h)] @ map EvNotice ns
                        @ [EvObjectExists p n (Inr False), EvUpload p n (Inl e)]\<rparr>, None)"
  | (Uploaded) b h ns n u where "u \<noteq> []" "\<not> dryRun opts"
      "tryUpload env opts resolved st =
         (st\<lparr>uploadsAttempted := uploadsAttempted st + 1,
             uploadsSucceeded := uploadsSucceeded st + 1,
             resolvedUrlByVaultPath := (resolvedUrlByVaultPath st)(p \<mapsto> u),
             trace := trace st @ [EvReadBinary p (Inr b), EvDigest p (Inr h)] @ map EvNotice ns
                        @ [EvObjectExists p n (Inr False), EvUpload p n (Inr ())]\<rparr>, Some u)"
proof (cases "vaultReadBinary env (trace st) resolved")
  case (Inl e)
  then have "tryUpload env opts resolved st =
         (st\<lparr>uploadsFailed := uploadsFailed st + 1,
             errors := errors st @ [uploadFailedMessage p e],
             trace := trace st @ [EvReadBinary p (Inl e)]\<rparr>, None)"
    by (simp add: tryUpload_def catchUploadError_def emit_def p_def)
  then show ?thesis by (rule ReadFails)
next
  case rb: (Inr b)
  show ?thesis
  proof (cases "cryptoDigest env b")
    case (Inl e)
    then have "tryUpload env opts resolved st =
         (st\<lparr>uploadsFailed := uploadsFailed st + 1,
             errors := errors st @ [uploadFailedMessage p e],
             trace := trace st @ [EvReadBinary p (Inr b), EvDigest p (Inl e)]\<rparr>, None)"
      using rb by (simp add: tryUpload_def catchUploadError_def emit_def p_def)
    then show ?thesis by (rule DigestFails)
  next
    case dg: (Inr h)
    let ?st2 = "emit (EvDigest p (Inr h)) (emit (EvReadBinary p (Inr b)) st)"
    let ?n = "generateResourceName (dateNow env (trace ?st2)) (name resolved) None (Some (buf2hex h))"
    let ?ns = "map EvNotice (urlNotices env ?n (linkMode opts))"
    obtain u where bt: "buildTargetUrl env ?n (linkMode opts) ?st2 = (?st2\<lparr>trace := trace ?st2 @ ?ns\<rparr>, u)"
      using buildTargetUrl_eq by blast
    obtain ms where ms: "?ns = map EvNotice ms" by blast
    let ?st3 = "?st2\<lparr>trace := trace ?st2 @ ?ns\<rparr>"
    have tr3: "trace ?st3 = trace st @ [EvReadBinary p (Inr b), EvDigest p (Inr h)] @ map EvNotice ms"
      using ms by (simp add: emit_def)
    show ?thesis
    proof (cases "isTruthy u")
      case False
      then have "tryUpload env opts resolved st =
         (st\<lparr>errors := errors st @ [noTargetUrlMessage p],
             trace := trace st @ [EvReadBinary p (Inr b), EvDigest p (Inr h)] @ map EvNotice ms\<rparr>,
          None)"
        using rb dg bt ms by (simp add: tryUpload_def emit_def p_def)
      then show ?thesis by (rule NoUrl)
    next
      case True
      then obtain url where url: "u = Some url" "url \<noteq> []"
        by (cases u) (auto simp: isTruthy_def)
      show ?thesis
      proof (cases "objectExists env (trace ?st3) ?n")
        case (Inl e)
        then have "tryUpload env opts resolved st =
         (st\<lparr>uploadsFailed := uploadsFailed st + 1,
             errors := errors st @ [uploadFailedMessage p e],
             trace := trace st @ [EvReadBinary p (Inr b), EvDigest p (Inr h)] @ map EvNotice ms
                        @ [EvObjectExists p ?n (Inl e)]\<rparr>, None)"
          using rb dg bt ms True
          by (simp add: tryUpload_def uploadIfAbsent_def catchUploadError_def emit_def p_def Let_def)
        then show ?thesis by (rule ExistsFails)
      next
        case ex: (Inr present)
        show ?thesis
        proof (cases present)
          case True
          then have "tryUpload env opts resolved st =
         (st\<lparr>uploadsSkippedAlreadyExists := uploadsSkippedAlreadyExists st + 1,
             resolvedUrlByVaultPath := (resolvedUrlByVaultPath st)(p \<mapsto> url),
             trace := trace st @ [EvReadBinary p (Inr b), EvDigest p (Inr h)] @ map EvNotice ms
                        @ [EvObjectExists p ?n (Inr True)]\<rparr>, Some url)"
            using rb dg bt ms url ex \<open>isTruthy u\<close>
            by (simp add: tryUpload_def uploadIfAbsent_def emit_def p_def Let_def)
          then show ?thesis using url by (intro Present)
        next
          case absent: False
          show ?thesis
          proof (cases "dryRun opts")
            case True
            then have "tryUpload env opts resolved st =
         (st\<lparr>uploadsAttempted := uploadsAttempted st + 1,
             resolvedUrlByVaultPath := (resolvedUrlByVaultPath st)(p \<mapsto> url),
             trace := trace st @ [EvReadBinary p (Inr b), EvDigest p (Inr h)] @ map EvNotice ms
                        @ [EvObjectExists p ?n (Inr False)]\<rparr>, Some url)"
              using rb dg bt ms url ex absent \<open>isTruthy u\<close>
              by (simp add: tryUpload_def uploadIfAbsent_def emit_def p_def Let_def)
            then show ?thesis using url True by (intro DryAbsent)
          next
            case wet: False
            let ?st5 = "(emit (EvObjectExists p ?n (Inr False)) ?st3)\<lparr>uploadsAttempted := uploadsAttempted st + 1\<rparr>"
            show ?thesis
            proof (cases "upload env (trace ?st5) b (name resolved)
                            (getMIME (mimeType env) (extension resolved)) ?n")
              case (Inl e)
              then have "tryUpload env opts resolved st =
         (st\<lparr>uploadsAttempted := uploadsAttempted st + 1,
             uploadsFailed := uploadsFailed st + 1,
             errors := errors st @ [uploadFailedMessage p e],
             trace := trace st @ [EvReadBinary p (Inr b), EvDigest p (Inr h)] @ map EvNotice ms
                        @ [EvObjectExists p ?n (Inr False), EvUpload p ?n (Inl e)]\<rparr>, None)"
                using rb dg bt ms url ex absent wet \<open>isTruthy u\<close>
                by (simp add: tryUpload_def uploadIfAbsent_def catchUploadError_def emit_def p_def Let_def)
              then show ?thesis using wet by (intro UploadFails)
            next
              case (Inr x)
              then have "tryUpload env opts resolved st =
         (st\<lparr>uploadsAttempted := uploadsAttempted st + 1,
             uploadsSucceeded := uploadsSucceeded st + 1,
             resolvedUrlByVaultPath := (resolvedUrlByVaultPath st)(p \<mapsto> url),
             trace := trace st @ [EvReadBinary p (Inr b), EvDigest p (Inr h)] @ map EvNotice ms
                        @ [EvObjectExists p ?n (Inr False), EvUpload p ?n (Inr ())]\<rparr>, Some url)"
                using rb dg bt ms url ex absent wet \<open>isTruthy u\<close>
                by (simp add: tryUpload_def uploadIfAbsent_def emit_def p_def Let_def)
              then show ?thesis using url wet by (intro Uploaded)
            qed
          qed
        qed
      qed
    qed
  qed
qed

section \<open>Invariants of a run\<close>

lemma preserved_attempt:
  "preserved env opts I \<Longrightarrow> I st \<Longrightarrow> \<not> isTruthy (resolvedUrlByVaultPath st (path f))
     \<Longrightarrow> I (fst (tryUpload env opts f st))"
  unfolding preserved_def by blast

lemma preserved_quiet: "preserved env opts I \<Longrightarrow> I st \<Longrightarrow> isQuiet ev \<Longrightarrow> I (emit ev st)"
  unfolding preserved_def by blast

lemma preserved_book: "preserved env opts I \<Longrightarrow> I st \<Longrightarrow> bookkeeping st st' \<Longrightarrow> I st'"
  unfolding preserved_def by blast

lemma preserved_write:
  "preserved env opts I \<Longrightarrow> I st \<Longrightarrow> \<not> dryRun opts \<Longrightarrow> persisted st st' \<Longrightarrow> I st'"
  unfolding preserved_def by blast

lemma ensureUrl_inv:
  assumes "preserved env opts I" and "I st"
  shows "I (fst (ensureUrl env opts f st))"
  using assms by (simp add: ensureUrl_def preserved_attempt)

lemma processRef_inv:
  assumes p: "preserved env opts I" and i: "I st"
  shows "I (fst (processRef env opts note (st, reps) r))"
proof (cases "emptyTarget (target r)")
  case True
  then show ?thesis using i by (simp add: processRef_def)
next
  case ne: False
  show ?thesis
  proof (cases "isProbablyRemoteLink (target r)")
    case True
    have "bookkeeping st (st\<lparr>refsRemoteSkipped := refsRemoteSkipped st + 1\<rparr>)"
      by (simp add: bookkeeping_def sameUploads_def)
    then show ?thesis using ne True preserved_book[OF p i] by (simp add: processRef_def)
  next
    case local: False
    let ?found = "getFirstLinkpathDest env (trace st) (target r) (path note)"
    let ?st1 = "emit (EvResolve (target r) (path note) ?found) st"
    have i1: "I ?st1"
      using preserved_quiet[OF p i] local by (simp add: isQuiet_def)
    show ?thesis
    proof (cases ?found)
      case None
      have "bookkeeping ?st1 (?st1\<lparr>refsUnresolved := refsUnresolved ?st1 + 1,
                       previewLines := previewLines ?st1
                         @ [''[UNRESOLVED] '' @ path note @ '': '' @ raw r]\<rparr>)"
        by (simp add: bookkeeping_def sameUploads_def)
      then show ?thesis using ne local None preserved_book[OF p i1]
        by (simp add: processRef_def Let_def)
    next
      case (Some resolved)
      show ?thesis
      proof (cases "extension resolved = ''md'' \<or> \<not> includeEXT (mimeType env) (extension resolved)")
        case True
        have "bookkeeping ?st1 (?st1\<lparr>attachmentsUnsupported := attachmentsUnsupported ?st1 + 1\<rparr>)"
          by (simp add: bookkeeping_def sameUploads_def)
        then show ?thesis using ne local Some True preserved_book[OF p i1]
          by (simp add: processRef_def Let_def)
      next
        case False
        obtain st2 u where e: "ensureUrl env opts resolved ?st1 = (st2, u)"
          by (cases "ensureUrl env opts resolved ?st1") auto
        have i2: "I st2" using ensureUrl_inv[OF p i1, of resolved] e by simp
        show ?thesis
        proof (cases u)
          case None
          then show ?thesis using ne local Some False e i2
            by (simp add: processRef_def Let_def)
        next
          case (Some url)
          let ?new = "buildReplacement (mimeType env) r url resolved"
          have "bookkeeping st2 (st2\<lparr>linksRewritten := linksRewritten st2 + 1,
                                       previewLines := previewLines st2
                                         @ [''[REWRITE] '' @ path note @ '': '' @ raw r
                                            @ '' -> '' @ ?new]\<rparr>)"
            by (simp add: bookkeeping_def sameUploads_def)
          then have "I (st2\<lparr>linksRewritten := linksRewritten st2 + 1,
                                       previewLines := previewLines st2
                                         @ [''[REWRITE] '' @ path note @ '': '' @ raw r
                                            @ '' -> '' @ ?new]\<rparr>)"
            using preserved_book[OF p i2] by blast
          then show ?thesis using ne local \<open>?found = Some resolved\<close> False e i2 Some
            by (simp add: processRef_def Let_def)
        qed
      qed
    qed
  qed
qed

lemma foldl_processRef_inv:
  assumes p: "preserved env opts I"
  shows "I (fst acc) \<Longrightarrow> I (fst (foldl (processRef env opts note) acc refs))"
proof (induction refs arbitrary: acc)
  case Nil
  then show ?case by simp
next
  case (Cons r refs)
  obtain st reps where a: "acc = (st, reps)" by (cases acc)
  have "I (fst (processRef env opts note (st, reps) r))"
    using processRef_inv[OF p] Cons.prems a by simp
  then show ?case using Cons.IH a by simp
qed

lemma ensureBackup_persisted: "persisted st (ensureBackup env note st)"
  by (auto simp: ensureBackup_def persisted_def sameUploads_def emit_def isNoteWrite_def Let_def
      split: sum.splits)

lemma persisted_trans: "persisted a b \<Longrightarrow> persisted b c \<Longrightarrow> persisted a c"
  by (auto simp: persisted_def sameUploads_def)

lemma persist_persisted: "persisted st (persist env opts note next st)"
proof -
  let ?b = "ensureBackup env note st"
  let ?st1 = "(if makeBackup opts
                 then (if thrown ?b = None then ?b\<lparr>backupCreated := backupCreated ?b + 1\<rparr> else ?b)
                 else st)"
  have "persisted st ?b" by (rule ensureBackup_persisted)
  then have "persisted st (?b\<lparr>backupCreated := backupCreated ?b + 1\<rparr>)"
    by (auto simp: persisted_def sameUploads_def)
  then have a: "persisted st ?st1"
    using \<open>persisted st ?b\<close> by (auto simp: persisted_def sameUploads_def)
  have b: "persisted ?st1 (persist env opts note next st)"
    by (auto simp: persist_def persisted_def sameUploads_def emit_def isNoteWrite_def Let_def
        split: sum.splits)
  show ?thesis using persisted_trans[OF a b] .
qed

lemma processNote_inv:
  assumes p: "preserved env opts I" and i: "I st"
  shows "I (processNote env opts st note)"
proof (cases "thrown st \<noteq> None")
  case True
  then show ?thesis using i by (simp add: processNote_def)
next
  case False
  let ?st1 = "st\<lparr>notesScanned := notesScanned st + 1\<rparr>"
  let ?rd = "vaultRead env (trace ?st1) note"
  let ?st2 = "emit (EvRead (path note) ?rd) ?st1"
  have "bookkeeping st ?st1" by (simp add: bookkeeping_def sameUploads_def)
  then have i1: "I ?st1" using preserved_book[OF p i] by blast
  have i2: "I ?st2" using preserved_quiet[OF p i1] by (simp add: isQuiet_def)
  show ?thesis
  proof (cases ?rd)
    case (Inl e)
    have "bookkeeping ?st2 (?st2\<lparr>thrown := Some e\<rparr>)"
      by (simp add: bookkeeping_def sameUploads_def emit_def)
    then show ?thesis using False Inl preserved_book[OF p i2]
      by (simp add: processNote_def Let_def)
  next
    case (Inr content)
    let ?refs = "candidateRefs (mimeType env) content"
    let ?st3 = "?st2\<lparr>refsFound := refsFound ?st2 + length ?refs\<rparr>"
    have "bookkeeping ?st2 ?st3" by (simp add: bookkeeping_def sameUploads_def emit_def)
    then have i3: "I ?st3" using preserved_book[OF p i2] by blast
    obtain st4 reps where f: "foldl (processRef env opts note) (?st3, []) ?refs = (st4, reps)"
      by (cases "foldl (processRef env opts note) (?st3, []) ?refs") auto
    have i4: "I st4" using foldl_processRef_inv[OF p, of "(?st3, [])" "note" ?refs] i3 f by simp
    have "I (persist env opts note (applyReplacements content reps) st4)" if "\<not> dryRun opts"
      using preserved_write[OF p i4 that persist_persisted] .
    then show ?thesis using False Inr f i4
      by (simp add: processNote_def Let_def)
  qed
qed

lemma foldl_processNote_inv:
  assumes p: "preserved env opts I"
  shows "I st \<Longrightarrow> I (foldl (processNote env opts) st nts)"
  by (induction nts arbitrary: st) (simp_all add: processNote_inv[OF p])

lemma convertAttachments_inv:
  assumes p: "preserved env opts I" and init: "I initialState"
  shows "I (convertAttachments env opts)"
proof -
  have n: "I (emit (EvNotice m) st)" if "I st" for m st
    using preserved_quiet[OF p that] by (simp add: isQuiet_def)
  have "I (foldl (processNote env opts) initialState (getScopeFiles env (scope opts)))"
    using foldl_processNote_inv[OF p init] .
  then show ?thesis using n init by (simp add: convertAttachments_def Let_def)
qed

section \<open>What the counters and the trace say of each other\<close>

lemma failureMessageFor_upload [simp]:
  "failureMessageFor p (uploadFailedMessage p e)"
  by (simp add: failureMessageFor_def startsWith_def uploadFailedMessage_def)

lemma failureMessageFor_url [simp]:
  "failureMessageFor p (noTargetUrlMessage p)"
  by (simp add: failureMessageFor_def)

lemma countOf_append [simp]: "countOf P (xs @ ys) = countOf P xs + countOf P ys"
  by (simp add: countOf_def)

lemma countOf_Nil [simp]: "countOf P [] = 0"
  by (simp add: countOf_def)

lemma countOf_Cons [simp]: "countOf P (x # xs) = (if P x then 1 else 0) + countOf P xs"
  by (simp add: countOf_def)

lemmas event_preds =
  isReadBinaryOf_def isDigestOf_def isUploadOf_def isCompletedUploadOf_def
  isExistenceAnswerOf_def isAbsentAnswer_def isWrite_def isFailedCall_def isResolveOfRemote_def

lemma countOf_notices [simp]:
  "countOf (isReadBinaryOf p) (map EvNotice ns) = 0"
  "countOf (isDigestOf p) (map EvNotice ns) = 0"
  "countOf (isUploadOf p) (map EvNotice ns) = 0"
  "countOf (isCompletedUploadOf p) (map EvNotice ns) = 0"
  "countOf (isExistenceAnswerOf p) (map EvNotice ns) = 0"
  "countOf isAbsentAnswer (map EvNotice ns) = 0"
  "countOf isWrite (map EvNotice ns) = 0"
  "countOf isFailedCall (map EvNotice ns) = 0"
  "countOf isResolveOfRemote (map EvNotice ns) = 0"
  by (induction ns) (simp_all add: event_preds)

lemma countOf_quiet:
  assumes "isQuiet ev"
  shows "\<not> isReadBinaryOf p ev" "\<not> isDigestOf p ev" "\<not> isUploadOf p ev"
    "\<not> isCompletedUploadOf p ev" "\<not> isExistenceAnswerOf p ev" "\<not> isAbsentAnswer ev"
    "\<not> isWrite ev" "\<not> isFailedCall ev" "\<not> isResolveOfRemote ev"
  using assms by (cases ev; simp add: event_preds isQuiet_def)+

lemma countOf_noteWrites:
  assumes "list_all isNoteWrite evs"
  shows "countOf (isReadBinaryOf p) evs = 0" "countOf (isDigestOf p) evs = 0"
    "countOf (isUploadOf p) evs = 0" "countOf (isCompletedUploadOf p) evs = 0"
    "countOf (isExistenceAnswerOf p) evs = 0" "countOf isAbsentAnswer evs = 0"
    "countOf isFailedCall evs = 0" "countOf isResolveOfRemote evs = 0"
  using assms
  by (induction evs; simp add: event_preds isNoteWrite_def split: event.splits)+

lemma preserved_conj:
  "preserved env opts I \<Longrightarrow> preserved env opts J \<Longrightarrow> preserved env opts (\<lambda>st. I st \<and> J st)"
  unfolding preserved_def by blast

lemma preserved_all:
  "(\<And>p. preserved env opts (I p)) \<Longrightarrow> preserved env opts (\<lambda>st. \<forall>p. I p st)"
  unfolding preserved_def by blast

lemma dedupInv_attempt:
  assumes "dedupInv opts p st" and "\<not> isTruthy (resolvedUrlByVaultPath st (path f))"
  shows "dedupInv opts p (fst (tryUpload env opts f st))"
proof (cases rule: tryUpload_cases[of env opts f st])
  case (ReadFails e)
  then show ?thesis using assms
    by (auto simp: dedupInv_def cached_def event_preds)
next
  case (DigestFails e b)
  then show ?thesis using assms
    by (auto simp: dedupInv_def cached_def event_preds)
next
  case (NoUrl b h ns)
  then show ?thesis using assms
    by (auto simp: dedupInv_def cached_def event_preds)
next
  case (ExistsFails e b h ns n)
  then show ?thesis using assms
    by (auto simp: dedupInv_def cached_def event_preds)
next
  case (Present b h ns n u)
  then show ?thesis using assms
    by (auto simp: dedupInv_def cached_def event_preds isTruthy_def)
next
  case (DryAbsent b h ns n u)
  then show ?thesis using assms
    by (auto simp: dedupInv_def cached_def event_preds isTruthy_def)
next
  case (UploadFails e b h ns n)
  then show ?thesis using assms
    by (auto simp: dedupInv_def cached_def event_preds)
next
  case (Uploaded b h ns n u)
  then show ?thesis using assms
    by (auto simp: dedupInv_def cached_def event_preds isTruthy_def)
qed


lemma dedupInv_preserved: "preserved env opts (dedupInv opts p)"
  unfolding preserved_def
proof (intro conjI allI impI)
  fix st and f :: TFile
  assume "dedupInv opts p st" "\<not> isTruthy (resolvedUrlByVaultPath st (path f))"
  then show "dedupInv opts p (fst (tryUpload env opts f st))" by (rule dedupInv_attempt)
next
  fix st ev
  assume "dedupInv opts p st" "isQuiet ev"
  then show "dedupInv opts p (emit ev st)"
    by (simp add: dedupInv_def cached_def emit_def countOf_quiet)
next
  fix st st'
  assume "dedupInv opts p st" "bookkeeping st st'"
  then show "dedupInv opts p st'"
    by (simp add: dedupInv_def cached_def bookkeeping_def sameUploads_def)
next
  fix st st'
  assume "dedupInv opts p st" "persisted st st'"
  then show "dedupInv opts p st'"
    by (auto simp: dedupInv_def cached_def persisted_def sameUploads_def countOf_noteWrites)
qed

lemma countersInv_preserved: "preserved env opts countersInv"
  unfolding preserved_def
proof (intro conjI allI impI)
  fix st f
  assume "countersInv st"
  then show "countersInv (fst (tryUpload env opts f st))"
    by (cases rule: tryUpload_cases[of env opts f st])
      (simp_all add: countersInv_def event_preds)
next
  fix st ev
  assume "countersInv st" "isQuiet ev"
  then show "countersInv (emit ev st)"
    by (simp add: countersInv_def emit_def countOf_quiet)
next
  fix st st'
  assume "countersInv st" "bookkeeping st st'"
  then show "countersInv st'"
    by (simp add: countersInv_def bookkeeping_def sameUploads_def)
next
  fix st st'
  assume "countersInv st" "persisted st st'"
  then show "countersInv st'"
    by (auto simp: countersInv_def persisted_def sameUploads_def countOf_noteWrites)
qed

lemma dryRunInv_preserved: "preserved env opts (dryRunInv opts)"
  unfolding preserved_def
proof (intro conjI allI impI)
  fix st f
  assume "dryRunInv opts st"
  then show "dryRunInv opts (fst (tryUpload env opts f st))"
    by (cases rule: tryUpload_cases[of env opts f st])
      (simp_all add: dryRunInv_def event_preds)
next
  fix st ev
  assume "dryRunInv opts st" "isQuiet ev"
  then show "dryRunInv opts (emit ev st)"
    by (simp add: dryRunInv_def emit_def countOf_quiet)
next
  fix st st'
  assume "dryRunInv opts st" "bookkeeping st st'"
  then show "dryRunInv opts st'"
    by (simp add: dryRunInv_def bookkeeping_def sameUploads_def)
next
  fix st st'
  assume "dryRunInv opts st" "\<not> dryRun opts"
  then show "dryRunInv opts st'"
    by (simp add: dryRunInv_def)
qed

lemma run_dedupInv: "dedupInv opts p (convertAttachments env opts)"
  by (rule convertAttachments_inv[OF dedupInv_preserved])
    (simp add: dedupInv_def initialState_def)

lemma run_countersInv: "countersInv (convertAttachments env opts)"
  by (rule convertAttachments_inv[OF countersInv_preserved])
    (simp add: countersInv_def initialState_def)

lemma run_dryRunInv: "dryRunInv opts (convertAttachments env opts)"
  by (rule convertAttachments_inv[OF dryRunInv_preserved])
    (simp add: dryRunInv_def initialState_def)

section \<open>The outcomes of one reference\<close>

lemma processRef_cases [case_names Empty Remote Unresolved Unsupported Kept Rewritten]:
  obtains
    (Empty) "emptyTarget (target r)" "processRef env opts nt (st, reps) r = (st, reps)"
  | (Remote) "\<not> emptyTarget (target r)" "isProbablyRemoteLink (target r)"
      "processRef env opts nt (st, reps) r
         = (st\<lparr>refsRemoteSkipped := refsRemoteSkipped st + 1\<rparr>, reps)"
  | (Unresolved) "\<not> isProbablyRemoteLink (target r)"
      "getFirstLinkpathDest env (trace st) (target r) (path nt) = None"
      "processRef env opts nt (st, reps) r
         = (st\<lparr>refsUnresolved := refsUnresolved st + 1,
               previewLines := previewLines st @ [''[UNRESOLVED] '' @ path nt @ '': '' @ raw r],
               trace := trace st @ [EvResolve (target r) (path nt) None]\<rparr>, reps)"
  | (Unsupported) f where "\<not> isProbablyRemoteLink (target r)"
      "getFirstLinkpathDest env (trace st) (target r) (path nt) = Some f"
      "processRef env opts nt (st, reps) r
         = (st\<lparr>attachmentsUnsupported := attachmentsUnsupported st + 1,
               trace := trace st @ [EvResolve (target r) (path nt) (Some f)]\<rparr>, reps)"
  | (Kept) f st2 u where "\<not> isProbablyRemoteLink (target r)"
      "getFirstLinkpathDest env (trace st) (target r) (path nt) = Some f"
      "ensureUrl env opts f (st\<lparr>trace := trace st @ [EvResolve (target r) (path nt) (Some f)]\<rparr>)
         = (st2, u)"
      "processRef env opts nt (st, reps) r = (st2, reps)"
  | (Rewritten) f st2 url where "\<not> isProbablyRemoteLink (target r)"
      "getFirstLinkpathDest env (trace st) (target r) (path nt) = Some f"
      "ensureUrl env opts f (st\<lparr>trace := trace st @ [EvResolve (target r) (path nt) (Some f)]\<rparr>)
         = (st2, Some url)"
      "processRef env opts nt (st, reps) r
         = (st2\<lparr>linksRewritten := linksRewritten st2 + 1,
                previewLines := previewLines st2
                  @ [''[REWRITE] '' @ path nt @ '': '' @ raw r @ '' -> ''
                     @ buildReplacement (mimeType env) r url f]\<rparr>,
            reps @ [\<lparr>start = start r, end' = end' r,
                     newText = buildReplacement (mimeType env) r url f\<rparr>])"
proof (cases "emptyTarget (target r)")
  case True
  then show ?thesis using Empty by (simp add: processRef_def)
next
  case ne: False
  show ?thesis
  proof (cases "isProbablyRemoteLink (target r)")
    case True
    then show ?thesis using ne Remote by (simp add: processRef_def)
  next
    case local: False
    let ?found = "getFirstLinkpathDest env (trace st) (target r) (path nt)"
    show ?thesis
    proof (cases ?found)
      case None
      then show ?thesis using ne local Unresolved
        by (simp add: processRef_def emit_def Let_def)
    next
      case (Some f)
      let ?st1 = "st\<lparr>trace := trace st @ [EvResolve (target r) (path nt) (Some f)]\<rparr>"
      show ?thesis
      proof (cases "extension f = ''md'' \<or> \<not> includeEXT (mimeType env) (extension f)")
        case True
        then show ?thesis using ne local Some Unsupported[of f]
          by (simp add: processRef_def emit_def Let_def)
      next
        case False
        obtain st2 u where e: "ensureUrl env opts f ?st1 = (st2, u)"
          by (cases "ensureUrl env opts f ?st1") auto
        show ?thesis
        proof (cases u)
          case None
          then have "processRef env opts nt (st, reps) r = (st2, reps)"
            using ne local Some False e by (simp add: processRef_def emit_def Let_def)
          then show ?thesis using Kept[OF local Some e] by blast
        next
          case u: (Some url)
          show ?thesis
          proof (cases "buildReplacement (mimeType env) r url f = raw r")
            case True
            then have "processRef env opts nt (st, reps) r = (st2, reps)"
              using ne local Some False e u by (simp add: processRef_def emit_def Let_def)
            then show ?thesis using Kept[OF local Some e] by blast
          next
            case diff: False
            then have "processRef env opts nt (st, reps) r
              = (st2\<lparr>linksRewritten := linksRewritten st2 + 1,
                previewLines := previewLines st2
                  @ [''[REWRITE] '' @ path nt @ '': '' @ raw r @ '' -> ''
                     @ buildReplacement (mimeType env) r url f]\<rparr>,
                 reps @ [\<lparr>start = start r, end' = end' r,
                     newText = buildReplacement (mimeType env) r url f\<rparr>])"
              using ne local Some False e u by (simp add: processRef_def emit_def Let_def)
            then show ?thesis using Rewritten[OF local Some] e u by blast
          qed
        qed
      qed
    qed
  qed
qed

lemma ensureUrl_effect:
  assumes "ensureUrl env opts f s = (s', u)"
  shows "\<exists>evs. trace s' = trace s @ evs
           \<and> countOf isFailedCall evs \<le> 1
           \<and> uploadsFailed s' = uploadsFailed s + countOf isFailedCall evs
           \<and> remoteDue mt evs = 0
           \<and> refsRemoteSkipped s' = refsRemoteSkipped s
           \<and> thrown s' = thrown s
           \<and> (countOf isFailedCall evs \<noteq> 0 \<longrightarrow>
                u = None \<and> resolvedUrlByVaultPath s' = resolvedUrlByVaultPath s
                \<and> (\<exists>e. errors s' = errors s @ [uploadFailedMessage (path f) e]))"
proof (cases "isTruthy (resolvedUrlByVaultPath s (path f))")
  case True
  then have "s' = s" using assms by (simp add: ensureUrl_def)
  then show ?thesis by (intro exI[of _ "[]"]) (simp add: remoteDue_def)
next
  case False
  then have t: "tryUpload env opts f s = (s', u)" using assms by (simp add: ensureUrl_def)
  have n: "remoteDue mt (map EvNotice ns) = 0" for ns
    by (induction ns) (simp_all add: remoteDue_def remoteCandidates_def)
  have a: "remoteDue mt (xs @ ys) = remoteDue mt xs + remoteDue mt ys" for xs ys
    by (simp add: remoteDue_def)
  have c: "remoteDue mt (x # xs) = remoteCandidates mt x + remoteDue mt xs" for x xs
    by (simp add: remoteDue_def)
  have z: "remoteDue mt [] = 0" by (simp add: remoteDue_def)
  show ?thesis
  proof (cases rule: tryUpload_cases[of env opts f s])
    case (ReadFails e)
    then show ?thesis using t
      by (intro exI[of _ "[EvReadBinary (path f) (Inl e)]"])
        (auto simp: event_preds a c z n remoteCandidates_def)
  next
    case (DigestFails e b)
    then show ?thesis using t
      by (intro exI[of _ "[EvReadBinary (path f) (Inr b), EvDigest (path f) (Inl e)]"])
        (auto simp: event_preds a c z n remoteCandidates_def)
  next
    case (NoUrl b h ns)
    then show ?thesis using t
      by (intro exI[of _ "[EvReadBinary (path f) (Inr b), EvDigest (path f) (Inr h)] @ map EvNotice ns"])
        (auto simp: event_preds a c z n remoteCandidates_def)
  next
    case (ExistsFails e b h ns nm)
    then show ?thesis using t
      by (intro exI[of _ "[EvReadBinary (path f) (Inr b), EvDigest (path f) (Inr h)] @ map EvNotice ns
                        @ [EvObjectExists (path f) nm (Inl e)]"])
        (auto simp: event_preds a c z n remoteCandidates_def)
  next
    case (Present b h ns nm url)
    then show ?thesis using t
      by (intro exI[of _ "[EvReadBinary (path f) (Inr b), EvDigest (path f) (Inr h)] @ map EvNotice ns
                        @ [EvObjectExists (path f) nm (Inr True)]"])
        (auto simp: event_preds a c z n remoteCandidates_def)
  next
    case (DryAbsent b h ns nm url)
    then show ?thesis using t
      by (intro exI[of _ "[EvReadBinary (path f) (Inr b), EvDigest (path f) (Inr h)] @ map EvNotice ns
                        @ [EvObjectExists (path f) nm (Inr False)]"])
        (auto simp: event_preds a c z n remoteCandidates_def)
  next
    case (UploadFails e b h ns nm)
    then show ?thesis using t
      by (intro exI[of _ "[EvReadBinary (path f) (Inr b), EvDigest (path f) (Inr h)] @ map EvNotice ns
                        @ [EvObjectExists (path f) nm (Inr False), EvUpload (path f) nm (Inl e)]"])
        (auto simp: event_preds a c z n remoteCandidates_def)
  next
    case (Uploaded b h ns nm url)
    then show ?thesis using t
      by (intro exI[of _ "[EvReadBinary (path f) (Inr b), EvDigest (path f) (Inr h)] @ map EvNotice ns
                        @ [EvObjectExists (path f) nm (Inr False), EvUpload (path f) nm (Inr ())]"])
        (auto simp: event_preds a c z n remoteCandidates_def)
  qed
qed

section \<open>Dry run\<close>

lemma tryUpload_dry_step:
  fixes env opts f st b h
  defines "tr2 \<equiv> trace st @ [EvReadBinary (path f) (Inr b), EvDigest (path f) (Inr h)]"
  defines "nm \<equiv> generateResourceName (dateNow env tr2) (name f) None (Some (buf2hex h))"
  defines "tr3 \<equiv> tr2 @ map EvNotice (urlNotices env nm (linkMode opts))"
  assumes "dryRun opts"
    and "vaultReadBinary env (trace st) f = Inr b"
    and "cryptoDigest env b = Inr h"
    and "snd (buildTargetUrl env nm (linkMode opts) st) = Some u" and "u \<noteq> []"
    and "objectExists env tr3 nm = Inr False"
  shows "tryUpload env opts f st =
           (st\<lparr>uploadsAttempted := uploadsAttempted st + 1,
               resolvedUrlByVaultPath := (resolvedUrlByVaultPath st)(path f \<mapsto> u),
               trace := tr3 @ [EvObjectExists (path f) nm (Inr False)]\<rparr>, Some u)"
proof -
  let ?st2 = "emit (EvDigest (path f) (Inr h)) (emit (EvReadBinary (path f) (Inr b)) st)"
  have t2: "trace ?st2 = tr2" by (simp add: emit_def tr2_def)
  obtain v where bt: "buildTargetUrl env nm (linkMode opts) ?st2
      = (?st2\<lparr>trace := tr3\<rparr>, v)"
    using buildTargetUrl_eq[of env nm "linkMode opts" ?st2] by (auto simp: t2 tr3_def)
  have "snd (buildTargetUrl env nm (linkMode opts) ?st2) = snd (buildTargetUrl env nm (linkMode opts) st)"
    by (simp add: buildTargetUrl_def)
  then have v: "v = Some u" using bt assms by simp
  have up: "uploadIfAbsent env opts f b nm (?st2\<lparr>trace := tr3\<rparr>)
     = ((?st2\<lparr>trace := tr3 @ [EvObjectExists (path f) nm (Inr False)]\<rparr>)\<lparr>uploadsAttempted := uploadsAttempted st + 1\<rparr>, None)"
    using assms(4,9) by (simp add: uploadIfAbsent_def emit_def Let_def)
  show ?thesis
    using assms(5,6,8) bt v up t2
    by (simp add: tryUpload_def Let_def isTruthy_def nm_def [symmetric] emit_def)
qed

lemma processRef_dry_step:
  fixes env opts nt st reps r f b h u
  defines "tr1 \<equiv> trace st @ [EvResolve (target r) (path nt) (Some f)]"
  defines "tr2 \<equiv> tr1 @ [EvReadBinary (path f) (Inr b), EvDigest (path f) (Inr h)]"
  defines "nm \<equiv> generateResourceName (dateNow env tr2) (name f) None (Some (buf2hex h))"
  defines "tr3 \<equiv> tr2 @ map EvNotice (urlNotices env nm (linkMode opts))"
  defines "st' \<equiv> st\<lparr>uploadsAttempted := uploadsAttempted st + 1,
               resolvedUrlByVaultPath := (resolvedUrlByVaultPath st)(path f \<mapsto> u),
               trace := tr3 @ [EvObjectExists (path f) nm (Inr False)]\<rparr>"
  defines "txt \<equiv> buildReplacement (mimeType env) r u f"
  assumes "dryRun opts"
    and "\<not> emptyTarget (target r)" and "\<not> isProbablyRemoteLink (target r)"
    and "getFirstLinkpathDest env (trace st) (target r) (path nt) = Some f"
    and "extension f \<noteq> ''md''" and "includeEXT (mimeType env) (extension f)"
    and "\<not> isTruthy (resolvedUrlByVaultPath st (path f))"
    and "vaultReadBinary env tr1 f = Inr b"
    and "cryptoDigest env b = Inr h"
    and "snd (buildTargetUrl env nm (linkMode opts) st) = Some u" and "u \<noteq> []"
    and "objectExists env tr3 nm = Inr False"
  shows "processRef env opts nt (st, reps) r =
           (if txt \<noteq> raw r
            then (st'\<lparr>linksRewritten := linksRewritten st + 1,
                      previewLines := previewLines st
                        @ [''[REWRITE] '' @ path nt @ '': '' @ raw r @ '' -> '' @ txt]\<rparr>,
                  reps @ [\<lparr>start = start r, end' = end' r, newText = txt\<rparr>])
            else (st', reps))"
proof -
  let ?st1 = "emit (EvResolve (target r) (path nt) (Some f)) st"
  have t1: "trace ?st1 = tr1" by (simp add: emit_def tr1_def)
  have "snd (buildTargetUrl env nm (linkMode opts) ?st1)
          = snd (buildTargetUrl env nm (linkMode opts) st)"
    by (simp add: buildTargetUrl_def)
  then have u: "snd (buildTargetUrl env nm (linkMode opts) ?st1) = Some u"
    using assms(16) by simp
  have "tryUpload env opts f ?st1 = (st', Some u)"
    using tryUpload_dry_step[of opts env ?st1 f b h u] assms(7,14,15,17,18) u
    unfolding t1 tr2_def[symmetric] nm_def[symmetric] tr3_def[symmetric]
    by (simp add: st'_def emit_def)
  then have "ensureUrl env opts f ?st1 = (st', Some u)"
    using assms(13) by (simp add: ensureUrl_def emit_def)
  then show ?thesis
    using assms(8-12)
    by (simp add: processRef_def Let_def txt_def st'_def)
qed


lemma run_dry_single:
  fixes env opts nt content r f b h u
  defines "tr0 \<equiv> [EvRead (path nt) (Inr content)]"
  defines "tr1 \<equiv> tr0 @ [EvResolve (target r) (path nt) (Some f)]"
  defines "tr2 \<equiv> tr1 @ [EvReadBinary (path f) (Inr b), EvDigest (path f) (Inr h)]"
  defines "nm \<equiv> generateResourceName (dateNow env tr2) (name f) None (Some (buf2hex h))"
  defines "tr3 \<equiv> tr2 @ map EvNotice (urlNotices env nm (linkMode opts))"
  defines "txt \<equiv> buildReplacement (mimeType env) r u f"
  defines "R \<equiv> convertAttachments env opts"
  assumes "dryRun opts"
    and "hasS3 env" and "getScopeFiles env (scope opts) = [nt]"
    and "vaultRead env [] nt = Inr content"
    and "candidateRefs (mimeType env) content = [r]"
    and "\<not> isProbablyRemoteLink (target r)"
    and "getFirstLinkpathDest env tr0 (target r) (path nt) = Some f"
    and "extension f \<noteq> ''md''" and "includeEXT (mimeType env) (extension f)"
    and "vaultReadBinary env tr1 f = Inr b"
    and "cryptoDigest env b = Inr h"
    and "snd (buildTargetUrl env nm (linkMode opts) initialState) = Some u" and "u \<noteq> []"
    and "objectExists env tr3 nm = Inr False"
  shows "uploadsAttempted R = 1
       \<and> resolvedUrlByVaultPath R (path f) = Some u
       \<and> trace R = tr3 @ [EvObjectExists (path f) nm (Inr False), EvNotice (finalNotice opts R)]
       \<and> previewLines R
           = (if txt \<noteq> raw r
              then [''[REWRITE] '' @ path nt @ '': '' @ raw r @ '' -> '' @ txt] else [])
       \<and> linksRewritten R = (if txt \<noteq> raw r then 1 else 0)"
proof -
  let ?st3 = "initialState\<lparr>notesScanned := 1, refsFound := 1, trace := tr0\<rparr>"
  let ?st' = "?st3\<lparr>uploadsAttempted := 1,
               resolvedUrlByVaultPath := (resolvedUrlByVaultPath ?st3)(path f \<mapsto> u),
               trace := tr3 @ [EvObjectExists (path f) nm (Inr False)]\<rparr>"
  have "r \<in> set (candidateRefs (mimeType env) content)" using assms(12) by simp
  then have "isAttachmentCandidate (mimeType env) (target r)" by (simp add: candidateRefs_def)
  then have ne: "\<not> emptyTarget (target r)"
    using candidate_nonblank by (simp add: emptyTarget_def)
  have uc: "\<not> isTruthy (resolvedUrlByVaultPath ?st3 (path f))"
    by (simp add: initialState_def isTruthy_def)
  have "snd (buildTargetUrl env nm (linkMode opts) ?st3)
          = snd (buildTargetUrl env nm (linkMode opts) initialState)"
    by (simp add: buildTargetUrl_def)
  then have url: "snd (buildTargetUrl env nm (linkMode opts) ?st3) = Some u"
    using assms(19) by simp
  have t: "trace ?st3 = tr0" by simp
  have a0: "uploadsAttempted ?st3 = 0" "linksRewritten ?st3 = 0" "previewLines ?st3 = []"
    by (simp_all add: initialState_def)
  have pr: "processRef env opts nt (?st3, []) r =
           (if txt \<noteq> raw r
            then (?st'\<lparr>linksRewritten := 1,
                      previewLines := [''[REWRITE] '' @ path nt @ '': '' @ raw r @ '' -> '' @ txt]\<rparr>,
                  [\<lparr>start = start r, end' = end' r, newText = txt\<rparr>])
            else (?st', []))"
    using processRef_dry_step[of opts r env ?st3 nt f b h u "[]"]
      assms(8,13-18,20,21) ne uc url a0
    unfolding t tr1_def[symmetric] tr2_def[symmetric] nm_def[symmetric] tr3_def[symmetric]
      txt_def[symmetric]
    by simp
  have pn: "processNote env opts initialState nt =
           (if txt \<noteq> raw r
            then ?st'\<lparr>linksRewritten := 1,
                      previewLines := [''[REWRITE] '' @ path nt @ '': '' @ raw r @ '' -> '' @ txt]\<rparr>
            else ?st')"
    using assms(8,11,12) pr
    by (simp add: processNote_def Let_def emit_def initialState_def tr0_def)
  have th: "thrown (processNote env opts initialState nt) = None"
    unfolding pn by (simp add: initialState_def)
  have "R = emit (EvNotice (finalNotice opts (processNote env opts initialState nt)))
              (processNote env opts initialState nt)"
    using assms(9,10) th by (simp add: R_def convertAttachments_def Let_def)
  moreover have "finalNotice opts (emit ev s) = finalNotice opts s" for ev s
    by (simp add: finalNotice_def emit_def)
  ultimately have e: "R = emit (EvNotice (finalNotice opts R)) (processNote env opts initialState nt)"
    by simp
  define N where "N = finalNotice opts R"
  have "R = emit (EvNotice N) (processNote env opts initialState nt)"
    using e by (simp add: N_def)
  then show ?thesis
    unfolding N_def[symmetric] pn by (simp add: emit_def initialState_def)
qed


lemma buildTargetUrl_url:
  "snd (buildTargetUrl env n m s) = snd (buildTargetUrl env n m s')"
  by (simp add: buildTargetUrl_def)

text \<open>
  C8, as the code has it. In a dry run no upload call is made, no note is written and no
  backup copy is made, so \<open>notesChanged\<close>, \<open>backupCreated\<close> and \<open>uploadsSucceeded\<close> stay 0.
  \<open>uploadsAttempted\<close> counts the existence checks that answered that the object is absent,
  and a check is answered at most once for a file, that is, for a vault path.

  The attempt itself is made as in a real run. When a reference resolves to a supported
  file without a URL in the map, the bytes of the file are read and digested, a URL can be
  built for the object and the store answers that the object is absent, then the reference
  adds one to \<open>uploadsAttempted\<close>, stores the URL for the path of the file, makes the
  calls of the attempt up to the existence check and no upload call, and records the
  replacement and the preview line built with that URL. A run over one note with one such reference ends with
  \<open>uploadsAttempted = 1\<close>, that URL in the map and that preview line in the report.
\<close>

theorem dry_run_frame:
  fixes env opts p nt st reps r f b h u tr content
  defines "R \<equiv> convertAttachments env opts"
  defines "tr1 \<equiv> tr @ [EvResolve (target r) (path nt) (Some f)]"
  defines "tr2 \<equiv> tr1 @ [EvReadBinary (path f) (Inr b), EvDigest (path f) (Inr h)]"
  defines "nm \<equiv> generateResourceName (dateNow env tr2) (name f) None (Some (buf2hex h))"
  defines "tr3 \<equiv> tr2 @ map EvNotice (urlNotices env nm (linkMode opts))"
  defines "txt \<equiv> buildReplacement (mimeType env) r u f"
  defines "ln \<equiv> ''[REWRITE] '' @ path nt @ '': '' @ raw r @ '' -> '' @ txt"
  defines "att \<equiv> st\<lparr>uploadsAttempted := uploadsAttempted st + 1,
                  resolvedUrlByVaultPath := (resolvedUrlByVaultPath st)(path f \<mapsto> u),
                  trace := tr3 @ [EvObjectExists (path f) nm (Inr False)]\<rparr>"
  assumes "dryRun opts"
  shows "countOf isWrite (trace R) = 0
       \<and> notesChanged R = 0
       \<and> backupCreated R = 0
       \<and> uploadsSucceeded R = 0
       \<and> uploadsAttempted R = countOf isAbsentAnswer (trace R)
       \<and> countOf (isExistenceAnswerOf p) (trace R) \<le> 1
       \<and> (countOf (isExistenceAnswerOf p) (trace R) = 1
            \<longrightarrow> isTruthy (resolvedUrlByVaultPath R p))
       \<and> (\<not> emptyTarget (target r) \<and> \<not> isProbablyRemoteLink (target r)
           \<and> getFirstLinkpathDest env tr (target r) (path nt) = Some f
           \<and> extension f \<noteq> ''md'' \<and> includeEXT (mimeType env) (extension f)
           \<and> vaultReadBinary env tr1 f = Inr b
           \<and> cryptoDigest env b = Inr h
           \<and> snd (buildTargetUrl env nm (linkMode opts) st) = Some u \<and> u \<noteq> []
           \<and> objectExists env tr3 nm = Inr False
          \<longrightarrow>
            (trace st = tr \<and> \<not> isTruthy (resolvedUrlByVaultPath st (path f))
              \<longrightarrow> processRef env opts nt (st, reps) r
                    = (if txt \<noteq> raw r
                       then (att\<lparr>linksRewritten := linksRewritten st + 1,
                                 previewLines := previewLines st @ [ln]\<rparr>,
                             reps @ [\<lparr>start = start r, end' = end' r, newText = txt\<rparr>])
                       else (att, reps)))
            \<and> (hasS3 env \<and> getScopeFiles env (scope opts) = [nt]
                \<and> vaultRead env [] nt = Inr content
                \<and> candidateRefs (mimeType env) content = [r]
                \<and> tr = [EvRead (path nt) (Inr content)]
              \<longrightarrow> uploadsAttempted R = 1
                  \<and> resolvedUrlByVaultPath R (path f) = Some u
                  \<and> trace R = tr3 @ [EvObjectExists (path f) nm (Inr False),
                                      EvNotice (finalNotice opts R)]
                  \<and> previewLines R = (if txt \<noteq> raw r then [ln] else [])
                  \<and> linksRewritten R = (if txt \<noteq> raw r then 1 else 0)))"
proof -
  have a: "countOf isWrite (trace R) = 0 \<and> notesChanged R = 0 \<and> backupCreated R = 0
      \<and> uploadsSucceeded R = 0"
    using run_dryRunInv[of opts env] assms by (simp add: dryRunInv_def R_def)
  have b: "uploadsAttempted R = countOf isAbsentAnswer (trace R)"
    using run_countersInv[of env opts] by (simp add: countersInv_def R_def)
  have c: "countOf (isExistenceAnswerOf p) (trace R) \<le> cached R p"
    using run_dedupInv[of opts p env] assms by (simp add: dedupInv_def R_def)
  have d: "countOf (isExistenceAnswerOf p) (trace R) \<le> 1"
    using c by (simp add: cached_def split: if_splits)
  have e: "isTruthy (resolvedUrlByVaultPath R p)"
    if "countOf (isExistenceAnswerOf p) (trace R) = 1"
    using c that by (simp add: cached_def split: if_splits)
  have s: "processRef env opts nt (st, reps) r
             = (if txt \<noteq> raw r
                then (att\<lparr>linksRewritten := linksRewritten st + 1,
                          previewLines := previewLines st @ [ln]\<rparr>,
                      reps @ [\<lparr>start = start r, end' = end' r, newText = txt\<rparr>])
                else (att, reps))"
    if "\<not> emptyTarget (target r)" "\<not> isProbablyRemoteLink (target r)"
      "getFirstLinkpathDest env tr (target r) (path nt) = Some f"
      "extension f \<noteq> ''md''" "includeEXT (mimeType env) (extension f)"
      "vaultReadBinary env tr1 f = Inr b" "cryptoDigest env b = Inr h"
      "snd (buildTargetUrl env nm (linkMode opts) st) = Some u" "u \<noteq> []"
      "objectExists env tr3 nm = Inr False"
      "trace st = tr" "\<not> isTruthy (resolvedUrlByVaultPath st (path f))"
    using processRef_dry_step[of opts r env st nt f b h u reps] assms that
    unfolding tr1_def tr2_def nm_def tr3_def txt_def ln_def att_def
    by simp
  have t: "uploadsAttempted R = 1
         \<and> resolvedUrlByVaultPath R (path f) = Some u
         \<and> trace R = tr3 @ [EvObjectExists (path f) nm (Inr False),
                             EvNotice (finalNotice opts R)]
         \<and> previewLines R = (if txt \<noteq> raw r then [ln] else [])
         \<and> linksRewritten R = (if txt \<noteq> raw r then 1 else 0)"
    if "\<not> isProbablyRemoteLink (target r)"
      "getFirstLinkpathDest env tr (target r) (path nt) = Some f"
      "extension f \<noteq> ''md''" "includeEXT (mimeType env) (extension f)"
      "vaultReadBinary env tr1 f = Inr b" "cryptoDigest env b = Inr h"
      "snd (buildTargetUrl env nm (linkMode opts) st) = Some u" "u \<noteq> []"
      "objectExists env tr3 nm = Inr False"
      "hasS3 env" "getScopeFiles env (scope opts) = [nt]"
      "vaultRead env [] nt = Inr content"
      "candidateRefs (mimeType env) content = [r]"
      "tr = [EvRead (path nt) (Inr content)]"
    using run_dry_single[of opts env nt content r f b h u] assms that
      buildTargetUrl_url[of env nm "linkMode opts" initialState st]
    unfolding tr1_def tr2_def nm_def tr3_def txt_def ln_def R_def
    by simp
  show ?thesis using a b d e s t by blast
qed


theorem dry_run_frame_witness:
  "dryRun dryOpts
   \<and> countOf isWrite (trace (convertAttachments singleEnv dryOpts)) = 0
   \<and> notesChanged (convertAttachments singleEnv dryOpts) = 0
   \<and> backupCreated (convertAttachments singleEnv dryOpts) = 0
   \<and> uploadsAttempted (convertAttachments singleEnv dryOpts) = 1
   \<and> resolvedUrlByVaultPath (convertAttachments singleEnv dryOpts) ''img/photo.png''
       = Some ''http://localhost:4998/photo-4142.png''
   \<and> previewLines (convertAttachments singleEnv dryOpts)
       = [''[REWRITE] a.md: ![[photo.png]] -> ![](http://localhost:4998/photo-4142.png)'']
   \<and> snd (processRef singleEnv dryOpts noteA
             (initialState\<lparr>trace := [EvRead ''a.md'' (Inr ''![[photo.png]]'')]\<rparr>, []) sampleRef)
       = [\<lparr>start = 0, end' = 14, newText = ''![](http://localhost:4998/photo-4142.png)''\<rparr>]"
proof -
  have h: "dryRun dryOpts" by (simp add: dryOpts_def)
  let ?tr = "[EvRead ''a.md'' (Inr ''![[photo.png]]'')]"
  let ?st = "initialState\<lparr>trace := ?tr\<rparr>"
  let ?u = "''http://localhost:4998/photo-4142.png''"
  note T = dry_run_frame[where opts = dryOpts and env = singleEnv and p = "''img/photo.png''"
      and nt = noteA and st = ?st and reps = "[]" and r = sampleRef and f = photoFile
      and b = "''PNG''" and h = "''AB''" and u = ?u and tr = ?tr
      and content = "''![[photo.png]]''", OF h]
  let ?tra = "?tr @ [EvResolve (target sampleRef) (path noteA) (Some photoFile)]"
  let ?trb = "?tra @ [EvReadBinary (path photoFile) (Inr ''PNG''),
                      EvDigest (path photoFile) (Inr ''AB'')]"
  let ?nm = "generateResourceName (dateNow singleEnv ?trb) (name photoFile) None
               (Some (buf2hex ''AB''))"
  let ?trc = "?trb @ map EvNotice (urlNotices singleEnv ?nm (linkMode dryOpts))"
  let ?txt = "buildReplacement (mimeType singleEnv) sampleRef ?u photoFile"
  let ?R = "convertAttachments singleEnv dryOpts"
  have H: "\<not> emptyTarget (target sampleRef) \<and> \<not> isProbablyRemoteLink (target sampleRef)
           \<and> getFirstLinkpathDest singleEnv ?tr (target sampleRef) (path noteA) = Some photoFile
           \<and> extension photoFile \<noteq> ''md'' \<and> includeEXT (mimeType singleEnv) (extension photoFile)
           \<and> vaultReadBinary singleEnv ?tra photoFile = Inr ''PNG''
           \<and> cryptoDigest singleEnv ''PNG'' = Inr ''AB''
           \<and> snd (buildTargetUrl singleEnv ?nm (linkMode dryOpts) ?st) = Some ?u \<and> ?u \<noteq> []
           \<and> objectExists singleEnv ?trc ?nm = Inr False"
    by code_simp
  have S: "trace ?st = ?tr \<and> \<not> isTruthy (resolvedUrlByVaultPath ?st (path photoFile))"
    by code_simp
  have D: "hasS3 singleEnv \<and> getScopeFiles singleEnv (scope dryOpts) = [noteA]
           \<and> vaultRead singleEnv [] noteA = Inr ''![[photo.png]]''
           \<and> candidateRefs (mimeType singleEnv) ''![[photo.png]]'' = [sampleRef]
           \<and> ?tr = [EvRead (path noteA) (Inr ''![[photo.png]]'')]"
    by code_simp
  have F: "countOf isWrite (trace ?R) = 0 \<and> notesChanged ?R = 0 \<and> backupCreated ?R = 0"
    using T by blast
  have P: "snd (processRef singleEnv dryOpts noteA (?st, []) sampleRef)
        = (if ?txt \<noteq> raw sampleRef
           then [] @ [\<lparr>start = start sampleRef, end' = end' sampleRef, newText = ?txt\<rparr>]
           else [])"
    using T H S by (simp only: snd_conv if_distrib[of snd] refl simp_thms)
  have Q: "uploadsAttempted ?R = 1 \<and> resolvedUrlByVaultPath ?R (path photoFile) = Some ?u
         \<and> previewLines ?R
            = (if ?txt \<noteq> raw sampleRef
               then [''[REWRITE] '' @ path noteA @ '': '' @ raw sampleRef @ '' -> '' @ ?txt]
               else [])"
    using T H D by blast
  have E: "?txt = ''![](http://localhost:4998/photo-4142.png)''"
    "raw sampleRef = ''![[photo.png]]''" "start sampleRef = 0" "end' sampleRef = 14"
    "path photoFile = ''img/photo.png''" "path noteA = ''a.md''"
    by code_simp+
  show ?thesis using h F P Q unfolding E by simp
qed

text \<open>
  The count is by file, not by object: two files with the same name and the same bytes in
  two folders have one object name, and a dry run that meets both counts two attempts.
\<close>

theorem dry_run_frame_counterexample:
  "dryRun dryOpts
   \<and> uploadsAttempted (convertAttachments twinEnv dryOpts) = 2
   \<and> absentObjects (trace (convertAttachments twinEnv dryOpts)) = [''p-4142.png'', ''p-4142.png'']
   \<and> length (remdups (absentObjects (trace (convertAttachments twinEnv dryOpts)))) = 1"
  by code_simp

section \<open>Upload dedup\<close>

lemma cache_entry_preserved:
  assumes "u \<noteq> []"
  shows "preserved env opts (\<lambda>s. resolvedUrlByVaultPath s q = Some u)"
  unfolding preserved_def
proof (intro conjI allI impI)
  fix st :: RunState and f :: TFile
  assume c: "resolvedUrlByVaultPath st q = Some u"
    and m: "\<not> isTruthy (resolvedUrlByVaultPath st (path f))"
  have "path f \<noteq> q" using c m assms by (auto simp: isTruthy_def)
  then show "resolvedUrlByVaultPath (fst (tryUpload env opts f st)) q = Some u"
    using c by (cases rule: tryUpload_cases[of env opts f st]) simp_all
next
  fix st :: RunState and ev
  assume "resolvedUrlByVaultPath st q = Some u"
  then show "resolvedUrlByVaultPath (emit ev st) q = Some u" by (simp add: emit_def)
next
  fix st st' :: RunState
  assume "resolvedUrlByVaultPath st q = Some u" "bookkeeping st st'"
  then show "resolvedUrlByVaultPath st' q = Some u"
    by (simp add: bookkeeping_def sameUploads_def)
next
  fix st st' :: RunState
  assume "resolvedUrlByVaultPath st q = Some u" "persisted st st'"
  then show "resolvedUrlByVaultPath st' q = Some u"
    by (simp add: persisted_def sameUploads_def)
qed

lemma ensureUrl_result:
  assumes "ensureUrl env opts f s = (s', Some u)"
  shows "u \<noteq> [] \<and> resolvedUrlByVaultPath s' (path f) = Some u"
proof (cases "isTruthy (resolvedUrlByVaultPath s (path f))")
  case True
  then show ?thesis using assms by (auto simp: ensureUrl_def isTruthy_def split: option.splits)
next
  case False
  then have t: "tryUpload env opts f s = (s', Some u)" using assms by (simp add: ensureUrl_def)
  show ?thesis
    using t by (cases rule: tryUpload_cases[of env opts f s]) auto
qed

text \<open>
  C2, as the code has it. For the file at path \<open>p\<close>, the readings of its bytes, the digests
  and the upload calls of a run each number at most one more than the entries the error
  list holds for \<open>p\<close>, so at most one when there is none; at most one upload call for \<open>p\<close>
  completes. A reference to a file whose URL the map holds makes no call and gets that
  URL; the URL an attempt returns is the one it stored; and a stored URL is never changed
  by a later reference or note.
\<close>

theorem upload_dedup:
  "countOf (isReadBinaryOf p) (trace (convertAttachments env opts))
     \<le> 1 + countOf (failureMessageFor p) (errors (convertAttachments env opts))
   \<and> countOf (isDigestOf p) (trace (convertAttachments env opts))
     \<le> 1 + countOf (failureMessageFor p) (errors (convertAttachments env opts))
   \<and> countOf (isUploadOf p) (trace (convertAttachments env opts))
     \<le> 1 + countOf (failureMessageFor p) (errors (convertAttachments env opts))
   \<and> countOf (isCompletedUploadOf p) (trace (convertAttachments env opts)) \<le> 1
   \<and> (countOf (failureMessageFor p) (errors (convertAttachments env opts)) = 0 \<longrightarrow>
        countOf (isDigestOf p) (trace (convertAttachments env opts)) \<le> 1
        \<and> countOf (isUploadOf p) (trace (convertAttachments env opts)) \<le> 1)
   \<and> (isTruthy (resolvedUrlByVaultPath s (path f)) \<longrightarrow>
        ensureUrl env opts f s = (s, resolvedUrlByVaultPath s (path f)))
   \<and> (ensureUrl env opts f s = (s', Some u) \<longrightarrow>
        u \<noteq> [] \<and> resolvedUrlByVaultPath s' (path f) = Some u)
   \<and> (resolvedUrlByVaultPath s q = Some v \<and> v \<noteq> [] \<longrightarrow>
        resolvedUrlByVaultPath (fst (processRef env opts nt (s, reps) r)) q = Some v
        \<and> resolvedUrlByVaultPath (processNote env opts s nt) q = Some v)"
proof -
  let ?st = "convertAttachments env opts"
  have d: "dedupInv opts p ?st" by (rule run_dedupInv)
  have c: "cached ?st p \<le> 1" by (simp add: cached_def)
  have 1: "countOf (isReadBinaryOf p) (trace ?st) \<le> 1 + countOf (failureMessageFor p) (errors ?st)"
    "countOf (isDigestOf p) (trace ?st) \<le> 1 + countOf (failureMessageFor p) (errors ?st)"
    "countOf (isUploadOf p) (trace ?st) \<le> 1 + countOf (failureMessageFor p) (errors ?st)"
    "countOf (isCompletedUploadOf p) (trace ?st) \<le> 1"
    using d c unfolding dedupInv_def by linarith+
  have 2: "ensureUrl env opts f s = (s, resolvedUrlByVaultPath s (path f))"
    if "isTruthy (resolvedUrlByVaultPath s (path f))"
    using that by (simp add: ensureUrl_def)
  have 3: "u \<noteq> [] \<and> resolvedUrlByVaultPath s' (path f) = Some u"
    if "ensureUrl env opts f s = (s', Some u)"
    using ensureUrl_result[OF that] .
  have 4: "resolvedUrlByVaultPath (fst (processRef env opts nt (s, reps) r)) q = Some v
        \<and> resolvedUrlByVaultPath (processNote env opts s nt) q = Some v"
    if "resolvedUrlByVaultPath s q = Some v \<and> v \<noteq> []"
  proof -
    have pr: "preserved env opts (\<lambda>s. resolvedUrlByVaultPath s q = Some v)"
      using cache_entry_preserved that by blast
    show ?thesis using processRef_inv[OF pr] processNote_inv[OF pr] that by blast
  qed
  show ?thesis using 1 2 3 4 by auto
qed

theorem upload_dedup_witness:
  "countOf (failureMessageFor ''img/photo.png'') (errors (convertAttachments sampleEnv sampleOpts)) = 0
   \<and> countOf (isDigestOf ''img/photo.png'') (trace (convertAttachments sampleEnv sampleOpts)) \<le> 1
   \<and> countOf (isUploadOf ''img/photo.png'') (trace (convertAttachments sampleEnv sampleOpts)) \<le> 1
   \<and> linksRewritten (convertAttachments sampleEnv sampleOpts) = 2
   \<and> isTruthy (resolvedUrlByVaultPath (convertAttachments sampleEnv sampleOpts) (path photoFile))
   \<and> ensureUrl sampleEnv sampleOpts photoFile (convertAttachments sampleEnv sampleOpts)
       = (convertAttachments sampleEnv sampleOpts, Some ''http://localhost:4998/photo-4142.png'')
   \<and> resolvedUrlByVaultPath
         (processNote sampleEnv sampleOpts (convertAttachments sampleEnv sampleOpts) noteA)
         ''img/photo.png''
       = Some ''http://localhost:4998/photo-4142.png''"
proof -
  let ?R = "convertAttachments sampleEnv sampleOpts"
  let ?u = "''http://localhost:4998/photo-4142.png''"
  have h1: "countOf (failureMessageFor ''img/photo.png'') (errors ?R) = 0" by code_simp
  have h2: "isTruthy (resolvedUrlByVaultPath ?R (path photoFile))" by code_simp
  have c: "resolvedUrlByVaultPath ?R (path photoFile) = Some ?u"
    "resolvedUrlByVaultPath ?R ''img/photo.png'' = Some ?u"
    by code_simp+
  have l: "linksRewritten ?R = 2" by code_simp
  have n: "?u \<noteq> []" by simp
  note t = upload_dedup[of "''img/photo.png''" sampleEnv sampleOpts ?R photoFile ?R ?u
      "''img/photo.png''" ?u noteA "[]"]
  have e: "ensureUrl sampleEnv sampleOpts photoFile ?R = (?R, Some ?u)"
    using t h2 c by simp
  show ?thesis using t h1 h2 c l n e by simp
qed

text \<open>
  The claim as it is written fails when an upload throws: the file is hashed and uploaded
  again at its next reference.
\<close>

theorem upload_dedup_counterexample:
  "\<not> countOf (isDigestOf ''img/photo.png'') (trace (convertAttachments failingEnv sampleOpts)) \<le> 1
   \<and> \<not> countOf (isUploadOf ''img/photo.png'') (trace (convertAttachments failingEnv sampleOpts)) \<le> 1"
  by code_simp

section \<open>Upload failures\<close>

text \<open>
  C7, as the code has it. When a call of the attempt made for a reference throws (the
  reading of the bytes, the digest, the existence check or the upload), the exception does
  not leave the loop: \<open>uploadsFailed\<close> grows by one, an entry naming the path of the file
  is appended to the error list, the map of URLs is left as it was and no replacement is
  recorded for that reference. Over a whole run \<open>uploadsFailed\<close> is the number of calls
  that threw.
\<close>

theorem upload_failure_contained:
  "(processRef env opts nt (st, reps) r = (st', reps')
      \<and> countOf isFailedCall (drop (length (trace st)) (trace st')) \<noteq> 0
    \<longrightarrow> reps' = reps \<and> uploadsFailed st' = uploadsFailed st + 1 \<and> thrown st' = thrown st
        \<and> resolvedUrlByVaultPath st' = resolvedUrlByVaultPath st
        \<and> (\<exists>f e. getFirstLinkpathDest env (trace st) (target r) (path nt) = Some f
               \<and> errors st' = errors st @ [''Upload failed for '' @ path f @ '': '' @ e]))
   \<and> uploadsFailed (convertAttachments env opts)
       = countOf isFailedCall (trace (convertAttachments env opts))"
proof -
  have step: "reps' = reps \<and> uploadsFailed st' = uploadsFailed st + 1 \<and> thrown st' = thrown st
        \<and> resolvedUrlByVaultPath st' = resolvedUrlByVaultPath st
        \<and> (\<exists>f e. getFirstLinkpathDest env (trace st) (target r) (path nt) = Some f
               \<and> errors st' = errors st @ [''Upload failed for '' @ path f @ '': '' @ e])"
    if eq: "processRef env opts nt (st, reps) r = (st', reps')"
      and fl: "countOf isFailedCall (drop (length (trace st)) (trace st')) \<noteq> 0"
  proof (cases rule: processRef_cases[of r env opts nt st reps])
    case Empty
    then show ?thesis using eq fl by simp
  next
    case Remote
    then show ?thesis using eq fl by auto
  next
    case Unresolved
    then show ?thesis using eq fl by (auto simp: event_preds)
  next
    case (Unsupported f)
    then show ?thesis using eq fl by (auto simp: event_preds)
  next
    case (Kept f st2 u)
    let ?st1 = "st\<lparr>trace := trace st @ [EvResolve (target r) (path nt) (Some f)]\<rparr>"
    obtain evs where e: "trace st2 = trace ?st1 @ evs"
      "uploadsFailed st2 = uploadsFailed ?st1 + countOf isFailedCall evs"
      "countOf isFailedCall evs \<le> 1"
      "thrown st2 = thrown ?st1"
      "countOf isFailedCall evs \<noteq> 0 \<longrightarrow>
                u = None \<and> resolvedUrlByVaultPath st2 = resolvedUrlByVaultPath ?st1
                \<and> (\<exists>e. errors st2 = errors ?st1 @ [uploadFailedMessage (path f) e])"
      using ensureUrl_effect[OF Kept(3), of sampleMime] by blast
    have s: "st' = st2" "reps' = reps" using eq Kept(4) by simp_all
    have "countOf isFailedCall evs \<noteq> 0" using fl e(1) s by (simp add: event_preds)
    then show ?thesis using e s Kept(2) by (auto simp: uploadFailedMessage_def)
  next
    case (Rewritten f st2 url)
    let ?st1 = "st\<lparr>trace := trace st @ [EvResolve (target r) (path nt) (Some f)]\<rparr>"
    obtain evs where e: "trace st2 = trace ?st1 @ evs"
      "countOf isFailedCall evs \<noteq> 0 \<longrightarrow> Some url = None"
      using ensureUrl_effect[OF Rewritten(3), of sampleMime] by blast
    have "trace st' = trace st2" using eq Rewritten(4) by auto
    then have "countOf isFailedCall evs \<noteq> 0" using fl e(1) by (simp add: event_preds)
    then show ?thesis using e(2) by simp
  qed
  have "uploadsFailed (convertAttachments env opts)
       = countOf isFailedCall (trace (convertAttachments env opts))"
    using run_countersInv[of env opts] by (simp add: countersInv_def)
  then show ?thesis using step by blast
qed

theorem upload_failure_contained_witness:
  "countOf isFailedCall
      (drop (length (trace initialState))
         (trace (fst (processRef flakyEnv sampleOpts noteA (initialState, []) sampleRef)))) \<noteq> 0
   \<and> snd (processRef flakyEnv sampleOpts noteA (initialState, []) sampleRef) = []
   \<and> uploadsFailed (fst (processRef flakyEnv sampleOpts noteA (initialState, []) sampleRef)) = 1
   \<and> errors (fst (processRef flakyEnv sampleOpts noteA (initialState, []) sampleRef))
       = [''Upload failed for img/photo.png: timeout'']"
proof -
  let ?p = "processRef flakyEnv sampleOpts noteA (initialState, []) sampleRef"
  have h: "countOf isFailedCall (drop (length (trace initialState)) (trace (fst ?p))) \<noteq> 0"
    by code_simp
  have e: "errors (fst ?p) = [''Upload failed for img/photo.png: timeout'']"
    by code_simp
  have i: "uploadsFailed initialState = 0" by (simp add: initialState_def)
  show ?thesis
    using upload_failure_contained[of flakyEnv sampleOpts noteA initialState "[]" sampleRef
        "fst ?p" "snd ?p"] h e i
    by simp
qed

text \<open>
  The claim as it is written fails when the failure does not repeat: the first reference
  to the picture is left as it was, the second one is rewritten in the text that is
  written back.
\<close>

theorem upload_failure_contained_counterexample:
  "uploadsFailed (convertAttachments flakyEnv sampleOpts) = 1
   \<and> errors (convertAttachments flakyEnv sampleOpts) = [''Upload failed for img/photo.png: timeout'']
   \<and> EvRead ''a.md'' (Inr ''![[photo.png]] and ![[photo.png]]'')
       \<in> set (trace (convertAttachments flakyEnv sampleOpts))
   \<and> EvModify ''a.md'' ''![[photo.png]] and ![](http://localhost:4998/photo-4142.png)'' (Inr ())
       \<in> set (trace (convertAttachments flakyEnv sampleOpts))"
  by code_simp

section \<open>Remote references\<close>

lemma remoteDue_simps [simp]:
  "remoteDue mt [] = 0"
  "remoteDue mt (xs @ ys) = remoteDue mt xs + remoteDue mt ys"
  "remoteDue mt (x # xs) = remoteCandidates mt x + remoteDue mt xs"
  by (simp_all add: remoteDue_def)

lemma remoteDue_noteWrites: "list_all isNoteWrite evs \<Longrightarrow> remoteDue mt evs = 0"
  by (induction evs) (auto simp: isNoteWrite_def remoteCandidates_def split: event.splits)

lemma processRef_remote:
  "refsRemoteSkipped (fst (processRef env opts nt (st, reps) r))
     = refsRemoteSkipped st + (if \<not> emptyTarget (target r) \<and> isRemoteRef r then 1 else 0)
   \<and> remoteDue mt (trace (fst (processRef env opts nt (st, reps) r))) = remoteDue mt (trace st)"
proof (cases rule: processRef_cases[of r env opts nt st reps])
  case Empty
  then show ?thesis by simp
next
  case Remote
  then show ?thesis by (simp add: isRemoteRef_def)
next
  case Unresolved
  then show ?thesis by (simp add: isRemoteRef_def remoteCandidates_def)
next
  case (Unsupported f)
  then show ?thesis by (simp add: isRemoteRef_def remoteCandidates_def)
next
  case (Kept f st2 u)
  then show ?thesis using ensureUrl_effect[OF Kept(3), of mt]
    by (auto simp: isRemoteRef_def remoteCandidates_def)
next
  case (Rewritten f st2 url)
  then show ?thesis using ensureUrl_effect[OF Rewritten(3), of mt]
    by (auto simp: isRemoteRef_def remoteCandidates_def)
qed

lemma foldl_processRef_remote:
  assumes "\<forall>r\<in>set refs. \<not> emptyTarget (target r)"
  shows "refsRemoteSkipped (fst (foldl (processRef env opts nt) acc refs))
           = refsRemoteSkipped (fst acc) + countOf isRemoteRef refs
         \<and> remoteDue mt (trace (fst (foldl (processRef env opts nt) acc refs)))
           = remoteDue mt (trace (fst acc))"
  using assms
proof (induction refs arbitrary: acc)
  case Nil
  then show ?case by simp
next
  case (Cons r refs)
  obtain st reps where a: "acc = (st, reps)" by (cases acc)
  have ne: "\<not> emptyTarget (target r)" using Cons.prems by simp
  have ih: "refsRemoteSkipped (fst (foldl (processRef env opts nt) (processRef env opts nt (st, reps) r) refs))
           = refsRemoteSkipped (fst (processRef env opts nt (st, reps) r)) + countOf isRemoteRef refs
         \<and> remoteDue mt (trace (fst (foldl (processRef env opts nt) (processRef env opts nt (st, reps) r) refs)))
           = remoteDue mt (trace (fst (processRef env opts nt (st, reps) r)))"
    using Cons.IH[of "processRef env opts nt (st, reps) r"] Cons.prems by simp
  show ?case using ih processRef_remote[of env opts nt st reps r mt] ne a by simp
qed

lemma persist_remote:
  "refsRemoteSkipped (persist env opts nt next st) = refsRemoteSkipped st
   \<and> remoteDue mt (trace (persist env opts nt next st)) = remoteDue mt (trace st)"
proof -
  have "refsRemoteSkipped (persist env opts nt next st) = refsRemoteSkipped st"
    by (auto simp: persist_def ensureBackup_def emit_def Let_def split: sum.splits)
  moreover have "remoteDue mt (trace (persist env opts nt next st)) = remoteDue mt (trace st)"
    using persist_persisted[of st env opts nt "next"]
    by (auto simp: persisted_def remoteDue_noteWrites)
  ultimately show ?thesis by simp
qed

lemma processNote_remote:
  assumes "refsRemoteSkipped st = remoteDue (mimeType env) (trace st)"
  shows "refsRemoteSkipped (processNote env opts st nt)
           = remoteDue (mimeType env) (trace (processNote env opts st nt))"
proof (cases "thrown st \<noteq> None")
  case True
  then show ?thesis using assms by (simp add: processNote_def)
next
  case False
  let ?mt = "mimeType env"
  let ?st1 = "st\<lparr>notesScanned := notesScanned st + 1\<rparr>"
  let ?rd = "vaultRead env (trace ?st1) nt"
  let ?st2 = "emit (EvRead (path nt) ?rd) ?st1"
  show ?thesis
  proof (cases ?rd)
    case (Inl e)
    then show ?thesis using False assms
      by (simp add: processNote_def Let_def emit_def remoteCandidates_def)
  next
    case (Inr content)
    let ?refs = "candidateRefs ?mt content"
    let ?st3 = "?st2\<lparr>refsFound := refsFound ?st2 + length ?refs\<rparr>"
    obtain st4 reps where f: "foldl (processRef env opts nt) (?st3, []) ?refs = (st4, reps)"
      by (cases "foldl (processRef env opts nt) (?st3, []) ?refs") auto
    have ne: "\<forall>r\<in>set ?refs. \<not> emptyTarget (target r)"
      using candidate_nonblank by (auto simp: emptyTarget_def candidateRefs_def)
    have "refsRemoteSkipped st4 = refsRemoteSkipped ?st3 + countOf isRemoteRef ?refs
      \<and> remoteDue ?mt (trace st4) = remoteDue ?mt (trace ?st3)"
      using foldl_processRef_remote[OF ne, of env opts nt "(?st3, [])" ?mt] f by simp
    moreover have "remoteDue ?mt (trace ?st3) = remoteDue ?mt (trace st) + countOf isRemoteRef ?refs"
      using Inr by (simp add: emit_def remoteCandidates_def)
    moreover have "refsRemoteSkipped ?st3 = refsRemoteSkipped st" by (simp add: emit_def)
    ultimately have k: "refsRemoteSkipped st4 = remoteDue ?mt (trace st4)" using assms by simp
    then have "refsRemoteSkipped (persist env opts nt (applyReplacements content reps) st4)
        = remoteDue ?mt (trace (persist env opts nt (applyReplacements content reps) st4))"
      using persist_remote[of env opts nt "applyReplacements content reps" st4 ?mt] by simp
    then show ?thesis using False Inr f k
      by (simp add: processNote_def Let_def)
  qed
qed

lemma foldl_processNote_remote:
  "refsRemoteSkipped st = remoteDue (mimeType env) (trace st) \<Longrightarrow>
     refsRemoteSkipped (foldl (processNote env opts) st nts)
       = remoteDue (mimeType env) (trace (foldl (processNote env opts) st nts))"
  by (induction nts arbitrary: st) (simp_all add: processNote_remote)

lemma run_remote:
  "refsRemoteSkipped (convertAttachments env opts)
     = remoteDue (mimeType env) (trace (convertAttachments env opts))"
proof -
  have i: "refsRemoteSkipped initialState = remoteDue (mimeType env) (trace initialState)"
    by (simp add: initialState_def)
  show ?thesis
    using foldl_processNote_remote[OF i, of opts "getScopeFiles env (scope opts)"] i
    by (simp add: convertAttachments_def Let_def emit_def remoteCandidates_def)
qed

text \<open>
  C4, as the code has it. A reference that passed the candidate filter and whose trimmed
  target begins with \<open>http://\<close>, \<open>https://\<close>, \<open>data:\<close>, \<open>mailto:\<close> or \<open>file:\<close> only adds one
  to \<open>refsRemoteSkipped\<close>: no call is made and no replacement is recorded. Over a whole
  run the resolver is never called with a remote target, and \<open>refsRemoteSkipped\<close> is the
  number of remote references among the candidates of the texts read; a remote reference
  that is not a candidate is dropped by the filter and is not counted.
\<close>

theorem remote_skip:
  "(isAttachmentCandidate (mimeType env) (target r) \<and> isProbablyRemoteLink (target r)
      \<longrightarrow> processRef env opts nt (st, reps) r
            = (st\<lparr>refsRemoteSkipped := refsRemoteSkipped st + 1\<rparr>, reps))
   \<and> countOf isResolveOfRemote (trace (convertAttachments env opts)) = 0
   \<and> refsRemoteSkipped (convertAttachments env opts)
       = remoteDue (mimeType env) (trace (convertAttachments env opts))"
proof -
  have "processRef env opts nt (st, reps) r
            = (st\<lparr>refsRemoteSkipped := refsRemoteSkipped st + 1\<rparr>, reps)"
    if "isAttachmentCandidate (mimeType env) (target r)" "isProbablyRemoteLink (target r)"
    using that candidate_nonblank[OF that(1)] by (simp add: processRef_def emptyTarget_def)
  moreover have "countOf isResolveOfRemote (trace (convertAttachments env opts)) = 0"
    using run_countersInv[of env opts] by (simp add: countersInv_def)
  ultimately show ?thesis using run_remote by blast
qed

theorem remote_skip_witness:
  "isAttachmentCandidate (mimeType remoteEnv) (target remoteRef)
   \<and> isProbablyRemoteLink (target remoteRef)
   \<and> trace (fst (processRef remoteEnv sampleOpts noteA (initialState, []) remoteRef)) = []
   \<and> refsRemoteSkipped (fst (processRef remoteEnv sampleOpts noteA (initialState, []) remoteRef)) = 1
   \<and> snd (processRef remoteEnv sampleOpts noteA (initialState, []) remoteRef) = []"
proof -
  have h1: "isAttachmentCandidate (mimeType remoteEnv) (target remoteRef)" by code_simp
  have h2: "isProbablyRemoteLink (target remoteRef)" by code_simp
  have i: "trace initialState = []" "refsRemoteSkipped initialState = 0"
    by (simp_all add: initialState_def)
  show ?thesis
    using remote_skip[of remoteEnv remoteRef sampleOpts noteA initialState "[]"] h1 h2 i by simp
qed

text \<open>
  The claim as it is written fails for a remote reference that names no supported file:
  the note has two remote references and one is counted.
\<close>

theorem remote_skip_counterexample:
  "countOf isRemoteRef (extractAttachmentRefs ''[](http://a/) ![](http://b.png)'') = 2
   \<and> EvRead ''a.md'' (Inr ''[](http://a/) ![](http://b.png)'')
       \<in> set (trace (convertAttachments remoteEnv sampleOpts))
   \<and> refsRemoteSkipped (convertAttachments remoteEnv sampleOpts) = 1"
  by code_simp

end
